theory Spec2Isabelle
  imports Main "HOL-Library.Word"
begin

unbundle bit_operations_syntax

section \<open>The transmission path of the I/O kernel (iokernel/tx.c)\<close>

text \<open>
  The C file works on structures shared through pointers: processes, threads and
  egress mbufs. Each kind of object lives in a store of its own, indexed by an
  address; a pointer is an address, and a pointer that may be NULL is an
  \<open>option\<close>. Shared packet memory is a flat array of bytes. Undefined behaviour of
  the C code (an index past the end of an array, a NULL dereference, a read of an
  uninitialised local, an access to shared memory outside the region it was derived
  from, a failed \<open>BUG_ON\<close>) is a \<open>fault\<close>: the functions return
  \<open>fault + result\<close>. The logging calls (\<open>log_warn\<close>, \<open>log_debug\<close>, \<open>log_info\<close>)
  write no state and are left out; \<open>print_pkt_contents\<close> is kept for the memory it
  reads.
\<close>

subsection \<open>Data model\<close>

type_synonym proc_ptr = nat
type_synonym thread_ptr = nat
type_synonym mbuf_ptr = nat
type_synonym addr = int
type_synonym shm = "addr \<Rightarrow> 8 word"

datatype fault = Out_of_bounds | Null_deref | Bug | Unbounded_loop | Uninitialised

datatype stat = COMPLETION_ENQUEUED | TX_COMPLETION_OVERFLOW | COMPLETION_DRAINED
  | TX_PULLED | TX_COMPLETION_FAIL | TX_BACKPRESSURE

text \<open>
  Modelled from the spec: the lrpc rings (base/lrpc.h) are not under src/. A ring is
  a bounded single-producer single-consumer queue of (command, payload) pairs, oldest
  first.
\<close>
record lrpc_chan =
  msgs :: "(64 word \<times> 64 word) list"
  chan_size :: nat

text \<open>
  Modelled from the spec: struct thread (iokernel/defs.h) is not under src/. The
  fields are the ones tx.c reads: the owning process, the egress ring \<open>txpktq\<close>, the
  ingress ring \<open>rxq\<close> and the active flag.
\<close>
record thread =
  t_p :: proc_ptr
  active :: bool
  rxq :: lrpc_chan
  txpktq :: lrpc_chan

text \<open>
  Modelled from the spec: struct proc (iokernel/defs.h) is not under src/. The fields
  are the ones tx.c reads, with the spec's reference count, thread list and
  round-robin cursor. \<open>overflow_queue\<close> is the array behind the C pointer;
  \<open>max_overflows\<close> is the capacity the code compares against. \<open>page_paddrs\<close> is
  indexed without a bound in tx.c and is a total table here.
\<close>
record proc =
  region_base :: addr
  region_len :: nat
  page_paddrs :: "nat \<Rightarrow> 64 word"
  kill :: bool
  ref :: int
  p_threads :: "thread_ptr list"
  next_thread_rr :: "32 word"
  overflow_queue :: "64 word list"
  nr_overflows :: nat
  max_overflows :: nat

text \<open>struct tx_pktmbuf_priv (the MLX-only lkey is left out).\<close>
record tx_pktmbuf_priv =
  priv_p :: "proc_ptr option"
  priv_th :: "thread_ptr option"
  completion_data :: "64 word"

text \<open>The fields of DPDK's struct rte_mbuf that tx.c writes, and the private trailer.\<close>
record rte_mbuf =
  buf_addr :: addr
  buf_physaddr :: "64 word"
  data_off :: "16 word"
  refcnt :: "16 word"
  buf_len :: "16 word"
  pkt_len :: "32 word"
  data_len :: "16 word"
  ol_flags :: "64 word"
  l4_len :: nat
  l3_len :: nat
  l2_len :: nat
  priv :: tx_pktmbuf_priv

text \<open>
  The whole state: the three stores, shared packet memory, the counters, the globals
  \<open>dp.clients\<close> (\<open>dp.nr_clients\<close> is its length) and \<open>ts\<close> (\<open>nrts\<close> is its
  length), the mbuf pool and the NIC's transmit ring, and the function-local statics
  of \<open>tx_drain_completions\<close> (\<open>drain_pos\<close>) and \<open>tx_burst\<close> (\<open>pos\<close>, \<open>n_pkts\<close>,
  \<open>n_bufs\<close>, and the array \<open>bufs\<close>, indexed from 0).
\<close>
record iokernel =
  procs :: "proc_ptr \<Rightarrow> proc"
  thread_tab :: "thread_ptr \<Rightarrow> thread"
  mbuf_tab :: "mbuf_ptr \<Rightarrow> rte_mbuf"
  mem :: shm
  stats :: "stat \<Rightarrow> int"
  clients :: "proc_ptr list"
  ts :: "thread_ptr list"
  tx_mbuf_pool :: "mbuf_ptr list"
  nic_txq :: "mbuf_ptr list"
  drain_pos :: "64 word"
  pos :: "32 word"
  n_pkts :: "32 word"
  n_bufs :: "32 word"
  bufs :: "nat \<Rightarrow> mbuf_ptr"

subsection \<open>Helpers declared outside src/\<close>

text \<open>
  Modelled from the spec: the command tags are enum constants of iokernel/queue.h,
  not under src/; the spec fixes only that each is a fixed constant.
\<close>
definition TXPKT_NET_XMIT :: "64 word" where
  "TXPKT_NET_XMIT = 0"

definition RX_NET_COMPLETE :: "64 word" where
  "RX_NET_COMPLETE = 1"

text \<open>
  Modelled from the spec: \<open>lrpc_send\<close> (base/lrpc.h) appends a message to a ring
  and fails, changing nothing, when the ring is full.
\<close>
definition lrpc_send :: "lrpc_chan \<Rightarrow> 64 word \<Rightarrow> 64 word \<Rightarrow> bool \<times> lrpc_chan" where
  "lrpc_send c cmd payload =
     (if length (msgs c) < chan_size c
      then (True, c\<lparr>msgs := msgs c @ [(cmd, payload)]\<rparr>)
      else (False, c))"

text \<open>
  Modelled from the spec: \<open>lrpc_recv\<close> (base/lrpc.h) takes the oldest message of a
  ring, or fails when the ring is empty.
\<close>
definition lrpc_recv :: "lrpc_chan \<Rightarrow> ((64 word \<times> 64 word) \<times> lrpc_chan) option" where
  "lrpc_recv c =
     (case msgs c of
        [] \<Rightarrow> None
      | x # xs \<Rightarrow> Some (x, c\<lparr>msgs := xs\<rparr>))"

definition STAT_INC :: "stat \<Rightarrow> int \<Rightarrow> iokernel \<Rightarrow> iokernel" where
  "STAT_INC c n s = s\<lparr>stats := (stats s)(c := stats s c + n)\<rparr>"

text \<open>
  Modelled from the spec: \<open>proc_get\<close> and \<open>proc_put\<close> (iokernel/defs.h) take and
  drop one reference on a process.
\<close>
definition proc_get :: "proc_ptr \<Rightarrow> iokernel \<Rightarrow> iokernel" where
  "proc_get p s = s\<lparr>procs := (procs s)(p := (procs s p)\<lparr>ref := ref (procs s p) + 1\<rparr>)\<rparr>"

definition proc_put :: "proc_ptr \<Rightarrow> iokernel \<Rightarrow> iokernel" where
  "proc_put p s = s\<lparr>procs := (procs s)(p := (procs s p)\<lparr>ref := ref (procs s p) - 1\<rparr>)\<rparr>"

text \<open>\<open>lrpc_send(&th->rxq, cmd, payload)\<close> on the thread store.\<close>
definition send_rxq :: "thread_ptr \<Rightarrow> 64 word \<Rightarrow> 64 word \<Rightarrow> iokernel \<Rightarrow> bool \<times> iokernel" where
  "send_rxq th cmd payload s =
     (case lrpc_send (rxq (thread_tab s th)) cmd payload of
        (ok, c) \<Rightarrow> (ok, s\<lparr>thread_tab := (thread_tab s)(th := (thread_tab s th)\<lparr>rxq := c\<rparr>)\<rparr>))"

text \<open>
  Modelled from the spec: \<open>rx_send_to_runtime\<close> (iokernel/rx.c) is not under
  src/. It enqueues into the thread of P that the hash (P's round-robin cursor)
  selects, and fails when that ring is full or P has no thread.
\<close>
definition rx_send_to_runtime ::
  "proc_ptr \<Rightarrow> 32 word \<Rightarrow> 64 word \<Rightarrow> 64 word \<Rightarrow> iokernel \<Rightarrow> bool \<times> iokernel" where
  "rx_send_to_runtime p hash cmd payload s =
     (let ths = p_threads (procs s p) in
      if ths = [] then (False, s)
      else send_rxq (ths ! (unat hash mod length ths)) cmd payload s)"

text \<open>The post-increment \<open>p->next_thread_rr++\<close>.\<close>
definition bump_rr :: "proc_ptr \<Rightarrow> iokernel \<Rightarrow> iokernel" where
  "bump_rr p s =
     s\<lparr>procs := (procs s)(p := (procs s p)\<lparr>next_thread_rr := next_thread_rr (procs s p) + 1\<rparr>)\<rparr>"

subsection \<open>The completion router\<close>

text \<open>The label \<open>success:\<close> of \<open>tx_send_completion\<close>.\<close>
definition send_success :: "proc_ptr \<Rightarrow> iokernel \<Rightarrow> fault + (bool \<times> iokernel)" where
  "send_success p s = Inr (True, STAT_INC COMPLETION_ENQUEUED 1 (proc_put p s))"

text \<open>Lines 146 to 153: the spill into the overflow queue after a failed send.\<close>
definition send_overflow :: "proc_ptr \<Rightarrow> 64 word \<Rightarrow> iokernel \<Rightarrow> fault + (bool \<times> iokernel)" where
  "send_overflow p cd s =
     (let pr = procs s p in
      if nr_overflows pr = max_overflows pr then Inr (False, s)
      else if length (overflow_queue pr) \<le> nr_overflows pr then Inl Out_of_bounds
      else
        send_success p
          (STAT_INC TX_COMPLETION_OVERFLOW 1
            (STAT_INC COMPLETION_ENQUEUED (- 1)
              (s\<lparr>procs := (procs s)(p := pr\<lparr>
                   overflow_queue := (overflow_queue pr)[nr_overflows pr := cd],
                   nr_overflows := nr_overflows pr + 1\<rparr>)\<rparr>))))"

definition tx_send_completion :: "mbuf_ptr \<Rightarrow> iokernel \<Rightarrow> fault + (bool \<times> iokernel)" where
  "tx_send_completion obj s =
     (let priv_data = priv (mbuf_tab s obj) in
      case priv_p priv_data of
        None \<Rightarrow> Inr (True, s)
      | Some p \<Rightarrow>
          if kill (procs s p) then Inr (True, proc_put p s)
          else if completion_data priv_data = 0 then Inr (True, proc_put p s)
          else
            (case priv_th priv_data of
               None \<Rightarrow> Inl Null_deref
             | Some th \<Rightarrow>
                 (case (if active (thread_tab s th)
                        then send_rxq th RX_NET_COMPLETE (completion_data priv_data) s
                        else rx_send_to_runtime p (next_thread_rr (procs s p)) RX_NET_COMPLETE
                               (completion_data priv_data) (bump_rr p s)) of
                    (True, s') \<Rightarrow> send_success p s'
                  | (False, s') \<Rightarrow> send_overflow p (completion_data priv_data) s')))"

text \<open>
  The loop of \<open>drain_overflow_queue\<close>: \<open>--p->nr_overflows\<close> selects the entry to
  send, the cursor is post-incremented, and a failed send restores the count and
  leaves the loop.
\<close>
function drain_loop :: "proc_ptr \<Rightarrow> int \<Rightarrow> int \<Rightarrow> iokernel \<Rightarrow> fault + (int \<times> iokernel)" where
  "drain_loop p n i s =
     (if 0 < nr_overflows (procs s p) \<and> i < n then
        (let pr = procs s p; k = nr_overflows pr - 1 in
         if length (overflow_queue pr) \<le> k then Inl Out_of_bounds
         else
           (case rx_send_to_runtime p (next_thread_rr pr) RX_NET_COMPLETE (overflow_queue pr ! k)
                   (s\<lparr>procs := (procs s)(p := pr\<lparr>
                        nr_overflows := k, next_thread_rr := next_thread_rr pr + 1\<rparr>)\<rparr>) of
              (False, s') \<Rightarrow>
                Inr (i, s'\<lparr>procs := (procs s')(p := (procs s' p)\<lparr>
                           nr_overflows := nr_overflows (procs s' p) + 1\<rparr>)\<rparr>)
            | (True, s') \<Rightarrow> drain_loop p n (i + 1) s'))
      else Inr (i, s))"
  by pat_completeness auto
termination
  by (relation "measure (\<lambda>(p, n, i, s). nat (n - i))") auto

declare drain_loop.simps [simp del]

definition drain_overflow_queue :: "proc_ptr \<Rightarrow> int \<Rightarrow> iokernel \<Rightarrow> fault + (int \<times> iokernel)" where
  "drain_overflow_queue p n s = drain_loop p n 0 s"

lemma send_rxq_frame:
  "send_rxq th cmd payload s = (ok, s') \<Longrightarrow>
     procs s' = procs s \<and> clients s' = clients s \<and> ts s' = ts s \<and> stats s' = stats s
     \<and> mbuf_tab s' = mbuf_tab s \<and> mem s' = mem s"
  by (auto simp: send_rxq_def split: prod.splits)

lemma rx_send_to_runtime_frame:
  "rx_send_to_runtime p hash cmd payload s = (ok, s') \<Longrightarrow>
     procs s' = procs s \<and> clients s' = clients s \<and> ts s' = ts s \<and> stats s' = stats s
     \<and> mbuf_tab s' = mbuf_tab s \<and> mem s' = mem s"
  by (auto simp: rx_send_to_runtime_def Let_def dest: send_rxq_frame split: if_splits)

lemma drain_loop_clients:
  "drain_loop p n i s = Inr (k, s') \<Longrightarrow> clients s' = clients s"
proof (induction p n i s rule: drain_loop.induct)
  case (1 p n i s)
  show ?case
  proof (cases "0 < nr_overflows (procs s p) \<and> i < n")
    case False
    with "1.prems" show ?thesis by (simp add: drain_loop.simps [of p n i s])
  next
    case True
    let ?pr = "procs s p"
    let ?k = "nr_overflows ?pr - 1"
    let ?s1 = "s\<lparr>procs := (procs s)(p := ?pr\<lparr>nr_overflows := ?k,
                 next_thread_rr := next_thread_rr ?pr + 1\<rparr>)\<rparr>"
    from True "1.prems" have inb: "\<not> length (overflow_queue ?pr) \<le> ?k"
      by (auto simp: drain_loop.simps [of p n i s] Let_def split: if_splits)
    obtain ok s2 where snd:
      "rx_send_to_runtime p (next_thread_rr ?pr) RX_NET_COMPLETE (overflow_queue ?pr ! ?k) ?s1 = (ok, s2)"
      by (cases "rx_send_to_runtime p (next_thread_rr ?pr) RX_NET_COMPLETE (overflow_queue ?pr ! ?k) ?s1")
    from rx_send_to_runtime_frame [OF snd] have c2: "clients s2 = clients s" by simp
    show ?thesis
    proof (cases ok)
      case True
      with \<open>0 < nr_overflows (procs s p) \<and> i < n\<close> inb snd "1.prems"
      have "drain_loop p n (i + 1) s2 = Inr (k, s')"
        by (simp add: drain_loop.simps [of p n i s] Let_def)
      with "1.IH" [OF \<open>0 < nr_overflows (procs s p) \<and> i < n\<close> refl refl inb snd [symmetric]] True c2
      show ?thesis by simp
    next
      case False
      with \<open>0 < nr_overflows (procs s p) \<and> i < n\<close> inb snd "1.prems" c2
      show ?thesis by (auto simp: drain_loop.simps [of p n i s] Let_def)
    qed
  qed
qed

text \<open>
  The loop of \<open>tx_drain_completions\<close>; \<open>lim\<close> is IOKERNEL_OVERFLOW_BATCH_DRAIN, a
  constant of iokernel/defs.h that is not under src/.
\<close>
function drain_clients :: "nat \<Rightarrow> nat \<Rightarrow> nat \<Rightarrow> iokernel \<Rightarrow> fault + (nat \<times> iokernel)" where
  "drain_clients lim i drained s =
     (if i < length (clients s) \<and> drained < lim then
        (let p = clients s ! (unat (drain_pos s + of_nat i) mod length (clients s)) in
         case drain_overflow_queue p (int lim - int drained) s of
           Inl e \<Rightarrow> Inl e
         | Inr (k, s') \<Rightarrow> drain_clients lim (i + 1) (drained + nat k) s')
      else Inr (drained, s))"
  by pat_completeness auto
termination
  by (relation "measure (\<lambda>(lim, i, drained, s). length (clients s) - i)")
    (auto simp: drain_overflow_queue_def dest: drain_loop_clients)

declare drain_clients.simps [simp del]

definition tx_drain_completions :: "nat \<Rightarrow> iokernel \<Rightarrow> fault + (bool \<times> iokernel)" where
  "tx_drain_completions lim s =
     (case drain_clients lim 0 0 s of
        Inl e \<Rightarrow> Inl e
      | Inr (drained, s') \<Rightarrow>
          Inr (0 < drained,
               STAT_INC COMPLETION_DRAINED (int drained) (s'\<lparr>drain_pos := drain_pos s' + 1\<rparr>)))"

subsection \<open>Shared packet memory\<close>

text \<open>
  Packet memory is read and written bytewise. The host is little-endian (the I/O kernel
  runs on x86-64), so a field of the header block is stored lowest byte first;
  \<open>hton16\<close> followed by a 16-bit store, and a 16-bit load followed by \<open>ntoh16\<close>,
  amount to a big-endian store and load. Addresses are integers, so pointer arithmetic
  does not wrap.

  A pointer into shared memory is obtained from \<open>shmptr_to_ptr\<close> on the region of a
  process, and the region is the object it points into: \<open>in_region r a n\<close> says that
  the \<open>n\<close> bytes at \<open>a\<close> lie inside it. An access that leaves the region is the
  fault \<open>Out_of_bounds\<close>.
\<close>
definition in_region :: "proc \<Rightarrow> addr \<Rightarrow> nat \<Rightarrow> bool" where
  "in_region r a n \<longleftrightarrow> region_base r \<le> a \<and> a + int n \<le> region_base r + int (region_len r)"

definition load_bytes :: "shm \<Rightarrow> addr \<Rightarrow> nat \<Rightarrow> 8 word list" where
  "load_bytes m a n = map (\<lambda>i. m (a + int i)) [0..<n]"

definition store_bytes :: "shm \<Rightarrow> addr \<Rightarrow> 8 word list \<Rightarrow> shm" where
  "store_bytes m a bs = (\<lambda>x. if a \<le> x \<and> x < a + int (length bs) then bs ! nat (x - a) else m x)"

primrec le_bytes :: "nat \<Rightarrow> nat \<Rightarrow> 8 word list" where
  "le_bytes 0 n = []"
| "le_bytes (Suc k) n = of_nat (n mod 256) # le_bytes k (n div 256)"

primrec le_nat :: "8 word list \<Rightarrow> nat" where
  "le_nat [] = 0"
| "le_nat (b # bs) = unat b + 256 * le_nat bs"

definition store32 :: "shm \<Rightarrow> addr \<Rightarrow> 32 word \<Rightarrow> shm" where
  "store32 m a w = store_bytes m a (le_bytes 4 (unat w))"

definition load32 :: "shm \<Rightarrow> addr \<Rightarrow> 32 word" where
  "load32 m a = of_nat (le_nat (load_bytes m a 4))"

definition store64 :: "shm \<Rightarrow> addr \<Rightarrow> 64 word \<Rightarrow> shm" where
  "store64 m a w = store_bytes m a (le_bytes 8 (unat w))"

definition load64 :: "shm \<Rightarrow> addr \<Rightarrow> 64 word" where
  "load64 m a = of_nat (le_nat (load_bytes m a 8))"

definition store_be16 :: "shm \<Rightarrow> addr \<Rightarrow> 16 word \<Rightarrow> shm" where
  "store_be16 m a w = store_bytes m a (rev (le_bytes 2 (unat w)))"

definition load_be16 :: "shm \<Rightarrow> addr \<Rightarrow> 16 word" where
  "load_be16 m a = of_nat (le_nat (rev (load_bytes m a 2)))"

text \<open>
  \<open>memmove\<close> (and \<open>memcpy\<close>, which \<open>tx_burst\<close> uses on blocks that do not overlap)
  inside the region \<open>r\<close>: both the source and the destination must lie in it.
\<close>
definition memmove :: "proc \<Rightarrow> shm \<Rightarrow> addr \<Rightarrow> addr \<Rightarrow> nat \<Rightarrow> fault + shm" where
  "memmove r m dst src n =
     (if in_region r dst n \<and> in_region r src n
      then Inr (store_bytes m dst (load_bytes m src n))
      else Inl Out_of_bounds)"

definition MTU_SIZE :: "32 word" where
  "MTU_SIZE = 1500"

definition UDP_OFFSET :: int where
  "UDP_OFFSET = 34"

text \<open>
  Modelled from the spec: struct tx_net_hdr (iokernel/queue.h) is not under src/. The
  spec lists its fields in this order: \<open>completion_data\<close> (8 bytes), the offload
  flags (4 bytes) and \<open>len\<close> (4 bytes), followed by the frame. The constants of
  \<open>tx_burst\<close> fix the rest: the loops step from \<open>payload + 42\<close> back by 60 to reach
  the header block and copy 60 bytes of header, and a segment occupies 1518 bytes
  for a 1500-byte frame, so the frame starts at offset 18 and the structure is 18 bytes
  (two bytes of padding). No claim depends on the order of the two 4-byte fields.
\<close>
definition sizeof_tx_net_hdr :: nat where
  "sizeof_tx_net_hdr = 18"

definition hdr_completion_data :: "shm \<Rightarrow> addr \<Rightarrow> 64 word" where
  "hdr_completion_data m h = load64 m h"

definition hdr_olflags :: "shm \<Rightarrow> addr \<Rightarrow> 32 word" where
  "hdr_olflags m h = load32 m (h + 8)"

definition hdr_len :: "shm \<Rightarrow> addr \<Rightarrow> 32 word" where
  "hdr_len m h = load32 m (h + 12)"

definition hdr_payload :: "addr \<Rightarrow> addr" where
  "hdr_payload h = h + 18"

text \<open>The two fields of the frame that the segmenter rewrites, at \<open>payload + 16\<close> and \<open>payload + 38\<close>.\<close>
definition ip_total_len :: "shm \<Rightarrow> addr \<Rightarrow> 16 word" where
  "ip_total_len m h = load_be16 m (hdr_payload h + 16)"

definition udp_len :: "shm \<Rightarrow> addr \<Rightarrow> 16 word" where
  "udp_len m h = load_be16 m (hdr_payload h + 38)"

subsection \<open>Polling the egress rings\<close>

text \<open>
  Modelled from the spec: \<open>shmptr_to_ptr\<close> (base/mem.h) is not under src/. The
  offset is checked to lie, with the object it points to, inside the region, and the
  base is added; NULL otherwise.
\<close>
definition shmptr_to_ptr :: "proc \<Rightarrow> 64 word \<Rightarrow> nat \<Rightarrow> addr option" where
  "shmptr_to_ptr r shmptr len =
     (if unat shmptr + len \<le> region_len r then Some (region_base r + uint shmptr) else None)"

text \<open>
  Modelled from the spec: \<open>unpoll_thread\<close> (iokernel/defs.h) is not under src/. It
  removes the thread from the poll set \<open>ts\<close>.
\<close>
definition unpoll_thread :: "thread_ptr \<Rightarrow> iokernel \<Rightarrow> iokernel" where
  "unpoll_thread t s = s\<lparr>ts := removeAll t (ts s)\<rparr>"

text \<open>
  \<open>BUG_ON\<close> (base/assert.h) is not under src/. It is the usual fatal assertion: when
  its condition holds the program stops there, which is the fault \<open>Bug\<close>.
\<close>
definition BUG_ON :: "bool \<Rightarrow> (fault + 'a) \<Rightarrow> fault + 'a" where
  "BUG_ON c k = (if c then Inl Bug else k)"

text \<open>
  The loop of \<open>tx_drain_queue\<close>. \<open>hdrs\<close> collects \<open>hdrs[0]\<close> to \<open>hdrs[i - 1]\<close>;
  the value returned by the C function is the length of the list.
\<close>
function tx_drain_loop ::
  "thread_ptr \<Rightarrow> int \<Rightarrow> int \<Rightarrow> addr list \<Rightarrow> iokernel \<Rightarrow> fault + (addr list \<times> iokernel)" where
  "tx_drain_loop t n i hdrs s =
     (if i < n then
        (case lrpc_recv (txpktq (thread_tab s t)) of
           None \<Rightarrow> Inr (hdrs, if \<not> active (thread_tab s t) then unpoll_thread t s else s)
         | Some ((cmd, payload), q) \<Rightarrow>
             (let s' = s\<lparr>thread_tab := (thread_tab s)(t := (thread_tab s t)\<lparr>txpktq := q\<rparr>)\<rparr> in
              BUG_ON (cmd \<noteq> TXPKT_NET_XMIT)
                (case shmptr_to_ptr (procs s' (t_p (thread_tab s' t))) payload sizeof_tx_net_hdr of
                   None \<Rightarrow> BUG_ON True (Inr (hdrs, s'))
                 | Some h \<Rightarrow> tx_drain_loop t n (i + 1) (hdrs @ [h]) s')))
      else Inr (hdrs, s))"
  by pat_completeness auto
termination
  by (relation "measure (\<lambda>(t, n, i, hdrs, s). nat (n - i))") auto

declare tx_drain_loop.simps [simp del]

definition tx_drain_queue :: "thread_ptr \<Rightarrow> int \<Rightarrow> iokernel \<Rightarrow> fault + (addr list \<times> iokernel)" where
  "tx_drain_queue t n s = tx_drain_loop t n 0 [] s"

lemma tx_drain_loop_ts:
  "tx_drain_loop t n i hdrs s = Inr (hs, s') \<Longrightarrow>
     (ts s' = ts s \<or> ts s' = removeAll t (ts s)) \<and> pos s' = pos s \<and> n_pkts s' = n_pkts s
     \<and> n_bufs s' = n_bufs s \<and> bufs s' = bufs s \<and> procs s' = procs s \<and> mem s' = mem s
     \<and> mbuf_tab s' = mbuf_tab s \<and> tx_mbuf_pool s' = tx_mbuf_pool s \<and> nic_txq s' = nic_txq s
     \<and> stats s' = stats s"
proof (induction t n i hdrs s rule: tx_drain_loop.induct)
  case (1 t n i hdrs s)
  show ?case
  proof (cases "i < n")
    case False
    with "1.prems" show ?thesis by (simp add: tx_drain_loop.simps [of t n i hdrs s])
  next
    case True
    show ?thesis
    proof (cases "lrpc_recv (txpktq (thread_tab s t))")
      case None
      with True "1.prems" show ?thesis
        by (auto simp: tx_drain_loop.simps [of t n i hdrs s] unpoll_thread_def split: if_splits)
    next
      case (Some a)
      obtain cmd payload q where a: "a = ((cmd, payload), q)" by (metis surj_pair)
      let ?s' = "s\<lparr>thread_tab := (thread_tab s)(t := (thread_tab s t)\<lparr>txpktq := q\<rparr>)\<rparr>"
      from True Some a "1.prems" obtain h where
        c: "\<not> cmd \<noteq> TXPKT_NET_XMIT" and
        h: "shmptr_to_ptr (procs ?s' (t_p (thread_tab ?s' t))) payload sizeof_tx_net_hdr = Some h" and
        r: "tx_drain_loop t n (i + 1) (hdrs @ [h]) ?s' = Inr (hs, s')"
        by (auto simp: tx_drain_loop.simps [of t n i hdrs s] BUG_ON_def Let_def
            split: if_splits option.splits)
      from "1.IH" [OF True Some a [symmetric] refl refl h r] show ?thesis by simp
    qed
  qed
qed

lemma tx_drain_queue_length_ts:
  "tx_drain_queue t n s = Inr (hs, s') \<Longrightarrow> length (ts s') \<le> length (ts s)"
proof -
  assume "tx_drain_queue t n s = Inr (hs, s')"
  then have "ts s' = ts s \<or> ts s' = removeAll t (ts s)"
    unfolding tx_drain_queue_def by (auto dest: tx_drain_loop_ts)
  then show ?thesis
    by (auto simp: length_removeAll_less_eq)
qed

subsection \<open>The segmenter (UDP GSO)\<close>

text \<open>
  \<open>len = ntoh16(udphdr->len) - sizeof(struct udp_hdr)\<close>: the UDP length field is the
  third 16-bit field of the UDP header (offset 4), the header is 8 bytes, and the
  64-bit difference is truncated to \<open>unsigned int\<close>.
\<close>
definition gso_len :: "shm \<Rightarrow> addr \<Rightarrow> 32 word" where
  "gso_len m h = ucast (load_be16 m (hdr_payload h + UDP_OFFSET + 4)) - 8"

text \<open>
  \<open>segs = (hdrs[i]->len + sizeof (struct tx_net_hdr) - len) / 60\<close>: computed in 64
  bits (\<open>sizeof\<close> is a \<open>size_t\<close>) and truncated to \<open>unsigned int\<close>.
\<close>
definition gso_segs :: "shm \<Rightarrow> addr \<Rightarrow> 32 word" where
  "gso_segs m h =
     ucast (((ucast (hdr_len m h) :: 64 word) + of_nat sizeof_tx_net_hdr - ucast (gso_len m h)) div 60)"

text \<open>
  The first loop (lines 314 to 318): \<open>segs - 1\<close> moves of payload chunks, the last
  chunk first. \<open>j\<close> counts as the C variable does; the caller excludes \<open>segs = 0\<close>,
  for which \<open>segs - 1\<close> is the largest \<open>unsigned int\<close>, so that the condition of the
  loop always holds and the loop has no exit.
\<close>
function gso_move ::
  "proc \<Rightarrow> 32 word \<Rightarrow> 32 word \<Rightarrow> nat \<Rightarrow> addr \<Rightarrow> shm \<Rightarrow> fault + (addr \<times> shm)" where
  "gso_move r segs len j cur m =
     (if j \<le> unat (segs - 1) then
        (case memmove r m (cur + uint ((segs - of_nat j) * 60)) cur
                (unat (if j = 1 then len - 1458 * (segs - 1) else 1458)) of
           Inl e \<Rightarrow> Inl e
         | Inr m' \<Rightarrow> gso_move r segs len (j + 1) (cur - 1458) m')
      else Inr (cur, m))"
  by pat_completeness auto
termination
  by (relation "measure (\<lambda>(r, segs, len, j, cur, m). Suc (unat (segs - 1)) - j)") auto

declare gso_move.simps [simp del]

text \<open>
  The body of the second loop (lines 323 to 330) on the header block at \<open>cur\<close>: the
  60 bytes of header are copied to the next segment first, then the length, the
  token and the two length fields of the frame are rewritten. The four stores go to
  the 60 bytes that the copy has just read, so the copy is the access that can leave
  the region.
\<close>
definition gso_hdr_step :: "proc \<Rightarrow> addr \<Rightarrow> shm \<Rightarrow> fault + shm" where
  "gso_hdr_step r cur m =
     (case memmove r m (cur + 1518) cur 60 of
        Inl e \<Rightarrow> Inl e
      | Inr m1 \<Rightarrow>
          (let m2 = store32 m1 (cur + 12) MTU_SIZE;
               m3 = store64 m2 cur 0;
               m4 = store_be16 m3 (hdr_payload cur + 38) (ucast (hdr_len m3 cur - 34))
           in Inr (store_be16 m4 (hdr_payload cur + 16) (ucast (hdr_len m4 cur - 14)))))"

text \<open>The second loop; \<open>out\<close> collects the header pointers stored in \<open>seg_hdrs\<close>.\<close>
function gso_hdrs ::
  "proc \<Rightarrow> 32 word \<Rightarrow> nat \<Rightarrow> addr \<Rightarrow> shm \<Rightarrow> addr list \<Rightarrow> fault + (addr \<times> shm \<times> addr list)" where
  "gso_hdrs r segs j cur m out =
     (if j \<le> unat (segs - 1) then
        (case gso_hdr_step r cur m of
           Inl e \<Rightarrow> Inl e
         | Inr m' \<Rightarrow> gso_hdrs r segs (j + 1) (cur + 1518) m' (out @ [cur]))
      else Inr (cur, m, out))"
  by pat_completeness auto
termination
  by (relation "measure (\<lambda>(r, segs, j, cur, m, out). Suc (unat (segs - 1)) - j)") auto

declare gso_hdrs.simps [simp del]

text \<open>
  Lines 339 to 342: the header of the last segment. The stores go to the 60 bytes that
  the last copy of the second loop wrote or, when there is one segment only, to the
  descriptor itself, between the header that \<open>shmptr_to_ptr\<close> checked and the UDP length
  field read at line 304.
\<close>
definition gso_last :: "32 word \<Rightarrow> 32 word \<Rightarrow> addr \<Rightarrow> shm \<Rightarrow> shm" where
  "gso_last segs len cur m =
     (let m1 = store32 m (cur + 12) (len - 1458 * (segs - 1) + 42);
          m2 = store_be16 m1 (hdr_payload cur + 38) (ucast (hdr_len m1 cur - 34))
      in store_be16 m2 (hdr_payload cur + 16) (ucast (hdr_len m2 cur - 14)))"

text \<open>
  Lines 302 to 345 for one oversized descriptor at \<open>h\<close>, a pointer into the region
  \<open>r\<close>: the new memory and the header pointers of the segments, in the order in which
  they are emitted. The UDP length field lies past the 18 bytes that \<open>shmptr_to_ptr\<close>
  checked.
\<close>
definition tx_gso :: "proc \<Rightarrow> shm \<Rightarrow> addr \<Rightarrow> fault + (shm \<times> addr list)" where
  "tx_gso r m h =
     (if \<not> in_region r (hdr_payload h + UDP_OFFSET + 4) 2 then Inl Out_of_bounds
      else
        (let len = gso_len m h; segs = gso_segs m h in
         if segs = 0 then Inl Unbounded_loop
         else
           (case gso_move r segs len 1 (hdr_payload h + 42 + uint (1458 * (segs - 1))) m of
              Inl e \<Rightarrow> Inl e
            | Inr (cur1, m1) \<Rightarrow>
                (case gso_hdrs r segs 1 (cur1 - 60) m1 [] of
                   Inl e \<Rightarrow> Inl e
                 | Inr (cur2, m2, out) \<Rightarrow> Inr (gso_last segs len cur2 m2, out @ [cur2])))))"

text \<open>The body of the loop at line 294 for the descriptor at \<open>h\<close>.\<close>
definition tx_segment :: "proc \<Rightarrow> shm \<Rightarrow> addr \<Rightarrow> fault + (shm \<times> addr list)" where
  "tx_segment r m h = (if hdr_len m h \<le> MTU_SIZE then Inr (m, [h]) else tx_gso r m h)"

text \<open>
  The loop at line 294 over the descriptors pulled in this call. \<open>cnt\<close> is the index
  \<open>m\<close>; \<open>cap\<close> is \<open>TX_MAX_SEGS\<close>, the size of \<open>seg_ts\<close> and \<open>seg_hdrs\<close>; \<open>out\<close>
  collects the entries written to the two arrays. \<open>reg t\<close> is the region of the
  process of thread \<open>t\<close>, from which the descriptors of \<open>t\<close> were translated.
\<close>
fun tx_segment_all ::
  "(thread_ptr \<Rightarrow> proc) \<Rightarrow> nat \<Rightarrow> shm \<Rightarrow> (addr \<times> thread_ptr) list \<Rightarrow> nat
     \<Rightarrow> (addr \<times> thread_ptr) list \<Rightarrow> fault + (shm \<times> (addr \<times> thread_ptr) list)" where
  "tx_segment_all reg cap m [] cnt out = Inr (m, out)"
| "tx_segment_all reg cap m ((h, t) # ds) cnt out =
     (case tx_segment (reg t) m h of
        Inl e \<Rightarrow> Inl e
      | Inr (m', hs) \<Rightarrow>
          if cap < cnt + length hs then Inl Out_of_bounds
          else tx_segment_all reg cap m' ds (cnt + length hs) (out @ map (\<lambda>x. (x, t)) hs))"

subsection \<open>The transmit burst\<close>

text \<open>
  \<open>IOKERNEL_TX_BURST_SIZE\<close> (iokernel/defs.h) is not under src/: the functions take
  it as the argument \<open>B\<close>. \<open>TX_MAX_SEGS\<close> is the macro of tx.c.
\<close>
definition TX_MAX_SEGS :: "nat \<Rightarrow> nat" where
  "TX_MAX_SEGS B = B * 50"

text \<open>
  The polling loop (lines 258 to 269). \<open>pulled\<close> collects the entries written to
  \<open>hdrs\<close> and \<open>threads\<close> in this call, which start at index \<open>n_pkts\<close> as it was
  on entry. The first component of the result says whether the loop was left by
  \<open>goto full\<close>. The third argument of \<open>tx_drain_queue\<close> is the \<open>unsigned int\<close>
  difference read as an \<open>int\<close>.
\<close>
function tx_poll ::
  "nat \<Rightarrow> nat \<Rightarrow> (addr \<times> thread_ptr) list \<Rightarrow> 32 word \<Rightarrow> iokernel
     \<Rightarrow> fault + (bool \<times> (addr \<times> thread_ptr) list \<times> 32 word \<times> iokernel)" where
  "tx_poll B i pulled pulltotal s =
     (if i < length (ts s) then
        (let idx = unat (pos s + of_nat i) mod length (ts s);
             t = ts s ! idx in
         case tx_drain_queue t (sint (of_nat B - n_pkts s :: 32 word)) s of
           Inl e \<Rightarrow> Inl e
         | Inr (hs, s') \<Rightarrow>
             (let ret = of_nat (length hs) :: 32 word;
                  s'' = s'\<lparr>n_pkts := n_pkts s' + ret\<rparr> in
              if of_nat B \<le> n_pkts s''
              then Inr (True, pulled @ map (\<lambda>h. (h, t)) hs, pulltotal + ret, s'')
              else tx_poll B (i + 1) (pulled @ map (\<lambda>h. (h, t)) hs) (pulltotal + ret) s''))
      else Inr (False, pulled, pulltotal, s))"
  by pat_completeness auto
termination
proof (relation "measure (\<lambda>(B, i, pulled, pulltotal, s). length (ts s) - i)", goal_cases)
  case 1
  show ?case by simp
next
  case (2 B i pulled pulltotal s idx t r hs s' ret s'')
  then have "length (ts s') \<le> length (ts s)"
    by (auto dest: tx_drain_queue_length_ts)
  with 2 show ?case by simp
qed

declare tx_poll.simps [simp del]

text \<open>
  Modelled from the spec: the macros \<open>PGN_2MB\<close> and \<open>PGOFF_2MB\<close> (base/mem.h) are
  not under src/. They are the number of the 2 MiB page of an address and the offset
  within the page; the page number is kept in a \<open>uint32_t\<close>.
\<close>
definition PGN_2MB :: "int \<Rightarrow> nat" where
  "PGN_2MB a = nat ((a mod 2 ^ 64) div 2 ^ 21 mod 2 ^ 32)"

definition PGOFF_2MB :: "int \<Rightarrow> 64 word" where
  "PGOFF_2MB a = of_int (a mod 2 ^ 21)"

text \<open>
  The offload flags: \<open>OLFLAG_*\<close> (iokernel/queue.h) and \<open>PKT_TX_*\<close> (DPDK) are not
  under src/; the bit positions are the ones of those headers. No claim reads them.
\<close>
definition tx_ol_flags :: "32 word \<Rightarrow> 64 word" where
  "tx_ol_flags olflags =
     (if bit olflags 0 then push_bit 54 1 else 0) OR
     (if bit olflags 1 then push_bit 52 1 else 0) OR
     (if bit olflags 2 then push_bit 55 1 else 0) OR
     (if bit olflags 3 then push_bit 56 1 else 0)"

definition tx_prepare_tx_mbuf :: "mbuf_ptr \<Rightarrow> addr \<Rightarrow> thread_ptr \<Rightarrow> iokernel \<Rightarrow> iokernel" where
  "tx_prepare_tx_mbuf buf net_hdr th s =
     (let p = t_p (thread_tab s th);
          pr = procs s p;
          a = hdr_payload net_hdr;
          page_number = PGN_2MB (a - region_base pr);
          len = hdr_len (mem s) net_hdr;
          olflags = hdr_olflags (mem s) net_hdr;
          b = (mbuf_tab s buf)\<lparr>
                buf_addr := a,
                buf_physaddr := page_paddrs pr page_number + PGOFF_2MB a,
                data_off := 0, refcnt := 1,
                buf_len := ucast len, pkt_len := len, data_len := ucast len,
                ol_flags := tx_ol_flags olflags,
                priv := \<lparr>priv_p = Some p, priv_th = Some th,
                          completion_data = hdr_completion_data (mem s) net_hdr\<rparr>\<rparr>;
          b' = (if olflags \<noteq> 0 then b\<lparr>l4_len := 20, l3_len := 20, l2_len := 14\<rparr> else b)
      in proc_get p (s\<lparr>mbuf_tab := (mbuf_tab s)(buf := b')\<rparr>))"

text \<open>The loop at line 362 over \<open>seg_hdrs[i]\<close>, \<open>seg_ts[i]\<close> from index \<open>i\<close> on.\<close>
fun tx_fill :: "nat \<Rightarrow> (addr \<times> thread_ptr) list \<Rightarrow> iokernel \<Rightarrow> iokernel" where
  "tx_fill i [] s = s"
| "tx_fill i ((h, t) # segs) s = tx_fill (i + 1) segs (tx_prepare_tx_mbuf (bufs s i) h t s)"

text \<open>
  Modelled from the spec: \<open>rte_mempool_get_bulk\<close> (DPDK) takes \<open>n\<close> buffers from
  the pool into \<open>bufs[start]\<close> onwards, or none at all when the pool holds fewer.
\<close>
definition rte_mempool_get_bulk :: "nat \<Rightarrow> nat \<Rightarrow> iokernel \<Rightarrow> iokernel option" where
  "rte_mempool_get_bulk start n s =
     (if length (tx_mbuf_pool s) < n then None
      else Some (s\<lparr>tx_mbuf_pool := drop n (tx_mbuf_pool s),
                   bufs := (\<lambda>i. if start \<le> i \<and> i < start + n
                                 then tx_mbuf_pool s ! (i - start) else bufs s i)\<rparr>))"

text \<open>
  Lines 271 to 278, after the polling loop has pulled something or found buffers
  carried over: \<open>pos\<close> is advanced unless the loop was left by \<open>goto full\<close>, and the
  counter of pulled descriptors is updated.
\<close>
definition tx_after_poll :: "bool \<Rightarrow> 32 word \<Rightarrow> iokernel \<Rightarrow> iokernel" where
  "tx_after_poll full pulltotal s1 =
     (let s2 = (if full then s1 else s1\<lparr>pos := pos s1 + 1\<rparr>)
      in s2\<lparr>stats := (stats s2)(TX_PULLED := stats s2 TX_PULLED + uint pulltotal)\<rparr>)"

text \<open>The region that the descriptors of thread \<open>t\<close> point into: \<open>t->p->region\<close>.\<close>
definition region_of :: "iokernel \<Rightarrow> thread_ptr \<Rightarrow> proc" where
  "region_of s t = procs s (t_p (thread_tab s t))"

text \<open>
  \<open>print_pkt_contents\<close>: it reads the UDP length field of the descriptor and then
  the whole 32-bit words of the UDP payload, which it logs; the AES context and key are
  locals. Nothing is written to shared state, so the result is a fault or nothing.
  \<open>pktlen\<close> is the \<open>unsigned long\<close> difference converted to \<open>int\<close>.
\<close>
definition print_pkt_contents :: "proc \<Rightarrow> shm \<Rightarrow> addr \<Rightarrow> fault + unit" where
  "print_pkt_contents r m hdr =
     (let udphdr_enc = hdr_payload hdr + UDP_OFFSET in
      if \<not> in_region r (udphdr_enc + 4) 2 then Inl Out_of_bounds
      else
        (let pktlen = sint (ucast (load_be16 m (udphdr_enc + 4)) - 8 :: 32 word) in
         if 4 \<le> pktlen \<and> \<not> in_region r (udphdr_enc + 8) (4 * nat (pktlen div 4))
         then Inl Out_of_bounds
         else Inr ()))"

fun tx_print_all :: "iokernel \<Rightarrow> (addr \<times> thread_ptr) list \<Rightarrow> fault + unit" where
  "tx_print_all s [] = Inr ()"
| "tx_print_all s ((h, t) # ds) =
     (case print_pkt_contents (region_of s t) (mem s) h of
        Inl e \<Rightarrow> Inl e
      | Inr _ \<Rightarrow> tx_print_all s ds)"

text \<open>
  Lines 289 to 291: \<open>print_pkt_contents(hdrs[i])\<close> for every \<open>i\<close> below \<open>n_pkts\<close>.
  The array \<open>hdrs\<close> is a local: this call has written \<open>pulled\<close> to it, from index
  \<open>n0\<close> on (the value of \<open>n_pkts\<close> on entry), and nothing below. When \<open>n0\<close> is not
  zero the loop starts by reading \<open>hdrs[0]\<close>, which is uninitialised.
\<close>
definition tx_print :: "32 word \<Rightarrow> (addr \<times> thread_ptr) list \<Rightarrow> iokernel \<Rightarrow> fault + unit" where
  "tx_print n0 pulled s =
     (if n_pkts s = 0 then Inr ()
      else if n0 \<noteq> 0 then Inl Uninitialised
      else tx_print_all s (take (unat (n_pkts s)) pulled))"

text \<open>
  Lines 293 to 348: the segmenter runs over \<open>hdrs[n_bufs]\<close> to \<open>hdrs[n_pkts - 1]\<close>
  and \<open>n_pkts\<close> becomes the number of segments. The arrays \<open>hdrs\<close> and \<open>threads\<close>
  are locals: of their entries only \<open>pulled\<close>, which starts at index \<open>n0\<close> (the
  value of \<open>n_pkts\<close> on entry), has been written in this call, and the loop reads an
  entry that has not when \<open>n_bufs\<close> is below \<open>n0\<close>.
\<close>
definition tx_gso_all ::
  "nat \<Rightarrow> 32 word \<Rightarrow> (addr \<times> thread_ptr) list \<Rightarrow> iokernel
     \<Rightarrow> fault + ((addr \<times> thread_ptr) list \<times> iokernel)" where
  "tx_gso_all B n0 pulled s =
     (if n_bufs s < n0 then Inl Uninitialised
      else
        (case tx_segment_all (region_of s) (TX_MAX_SEGS B) (mem s)
                (drop (unat (n_bufs s - n0)) pulled) (unat (n_bufs s)) [] of
           Inl e \<Rightarrow> Inl e
         | Inr (mem', segs) \<Rightarrow>
             Inr (segs, s\<lparr>mem := mem', n_pkts := n_bufs s + of_nat (length segs)\<rparr>)))"

text \<open>
  Lines 350 to 368: the buffers for the new segments are taken from the pool and
  filled in. The result \<open>Some True\<close> is the early \<open>return true\<close> when the pool is
  exhausted; \<open>None\<close> means that the function goes on to the driver.
\<close>
definition tx_alloc_fill :: "(addr \<times> thread_ptr) list \<Rightarrow> iokernel \<Rightarrow> bool option \<times> iokernel" where
  "tx_alloc_fill segs s =
     (case (if n_pkts s - n_bufs s \<noteq> 0
            then rte_mempool_get_bulk (unat (n_bufs s)) (unat (n_pkts s - n_bufs s)) s
            else Some s) of
        None \<Rightarrow>
          (Some True,
           s\<lparr>stats := (stats s)(TX_COMPLETION_FAIL :=
                stats s TX_COMPLETION_FAIL + uint (n_pkts s - n_bufs s))\<rparr>)
      | Some s5 \<Rightarrow>
          (let s6 = tx_fill (unat (n_bufs s5)) segs s5
           in (None, s6\<lparr>n_bufs := n_pkts s6\<rparr>)))"

text \<open>
  \<open>tx_burst\<close> up to line 368, before the buffers are handed to the driver. The
  result \<open>Some r\<close> is an early \<open>return r\<close>.
\<close>
definition tx_burst_fill :: "nat \<Rightarrow> iokernel \<Rightarrow> fault + (bool option \<times> iokernel)" where
  "tx_burst_fill B s =
     (case tx_poll B 0 [] 0 s of
        Inl e \<Rightarrow> Inl e
      | Inr (full, pulled, pulltotal, s1) \<Rightarrow>
          if \<not> full \<and> n_pkts s1 = 0 then Inr (Some False, s1)
          else
            (let s2 = tx_after_poll full pulltotal s1 in
             case tx_print (n_pkts s) pulled s2 of
               Inl e \<Rightarrow> Inl e
             | Inr _ \<Rightarrow>
                 (case tx_gso_all B (n_pkts s) pulled s2 of
                    Inl e \<Rightarrow> Inl e
                  | Inr (segs, s4) \<Rightarrow> Inr (tx_alloc_fill segs s4))))"

text \<open>The buffers handed to \<open>rte_eth_tx_burst\<close>: \<open>bufs[0]\<close> to \<open>bufs[n_pkts - 1]\<close>.\<close>
definition tx_offered :: "iokernel \<Rightarrow> mbuf_ptr list" where
  "tx_offered s = map (bufs s) [0..<unat (n_pkts s)]"

text \<open>
  \<open>tx_burst\<close> from line 371 on. \<open>rte_eth_tx_burst\<close> is the driver's: \<open>k\<close> is the
  number of buffers the NIC ring takes in this call, so the driver returns the
  smaller of \<open>k\<close> and the number offered, and the buffers it took join \<open>nic_txq\<close>.
\<close>
definition tx_burst_send :: "nat \<Rightarrow> iokernel \<Rightarrow> iokernel" where
  "tx_burst_send k s =
     (let ret = min k (length (tx_offered s));
          s1 = s\<lparr>nic_txq := nic_txq s @ take ret (tx_offered s)\<rparr> in
      if of_nat ret < n_pkts s1 then
        (let s2 = STAT_INC TX_BACKPRESSURE (uint (n_pkts s1 - of_nat ret)) s1;
             s3 = s2\<lparr>n_pkts := n_pkts s2 - of_nat ret\<rparr>;
             s4 = s3\<lparr>bufs := fold (\<lambda>i b. b(i := b (ret + i))) [0..<unat (n_pkts s3)] (bufs s3)\<rparr>
         in s4\<lparr>n_bufs := n_pkts s4\<rparr>)
      else s1\<lparr>n_pkts := 0, n_bufs := 0\<rparr>)"

definition tx_burst :: "nat \<Rightarrow> nat \<Rightarrow> iokernel \<Rightarrow> fault + (bool \<times> iokernel)" where
  "tx_burst B k s =
     (case tx_burst_fill B s of
        Inl e \<Rightarrow> Inl e
      | Inr (Some r, s') \<Rightarrow> Inr (r, s')
      | Inr (None, s') \<Rightarrow> Inr (True, tx_burst_send k s'))"

text \<open>
  \<open>tx_pktmbuf_priv_init\<close>: the \<open>memset\<close> of the private trailer to zero, which
  makes both pointers NULL and the completion token zero.
\<close>
definition tx_pktmbuf_priv_init :: "mbuf_ptr \<Rightarrow> iokernel \<Rightarrow> iokernel" where
  "tx_pktmbuf_priv_init obj s =
     s\<lparr>mbuf_tab := (mbuf_tab s)(obj := (mbuf_tab s obj)\<lparr>priv :=
          \<lparr>priv_p = None, priv_th = None, completion_data = 0\<rparr>\<rparr>)\<rparr>"

subsection \<open>Observations on the completion router\<close>

text \<open>
  The tokens waiting in a process's overflow queue, oldest first: the entries below
  \<open>nr_overflows\<close>, which is where \<open>tx_send_completion\<close> writes the next one.
\<close>
definition overflow_tokens :: "proc \<Rightarrow> 64 word list" where
  "overflow_tokens pr = take (nr_overflows pr) (overflow_queue pr)"

definition ring_room :: "lrpc_chan \<Rightarrow> nat" where
  "ring_room c = chan_size c - length (msgs c)"

text \<open>No ring and no overflow queue holds anything in \<open>s'\<close> that it did not hold in \<open>s\<close>.\<close>
definition enqueued_nowhere :: "iokernel \<Rightarrow> iokernel \<Rightarrow> bool" where
  "enqueued_nowhere s s' \<longleftrightarrow>
     (\<forall>th. msgs (rxq (thread_tab s' th)) = msgs (rxq (thread_tab s th))) \<and>
     (\<forall>p. overflow_tokens (procs s' p) = overflow_tokens (procs s p))"

text \<open>Sequencing of two calls, and what a test reads off the final state.\<close>
definition and_then ::
  "fault + ('a \<times> iokernel) \<Rightarrow> (iokernel \<Rightarrow> fault + ('b \<times> iokernel)) \<Rightarrow> fault + ('b \<times> iokernel)" where
  "and_then r f = (case r of Inl e \<Rightarrow> Inl e | Inr (_, s) \<Rightarrow> f s)"

definition rx_payloads :: "thread_ptr \<Rightarrow> fault + ('a \<times> iokernel) \<Rightarrow> fault + 64 word list" where
  "rx_payloads th r = (case r of Inl e \<Rightarrow> Inl e | Inr (_, s) \<Rightarrow> Inr (map snd (msgs (rxq (thread_tab s th)))))"

definition queued_tokens :: "proc_ptr \<Rightarrow> fault + ('a \<times> iokernel) \<Rightarrow> fault + 64 word list" where
  "queued_tokens p r = (case r of Inl e \<Rightarrow> Inl e | Inr (_, s) \<Rightarrow> Inr (overflow_tokens (procs s p)))"

definition ref_after :: "proc_ptr \<Rightarrow> fault + (bool \<times> iokernel) \<Rightarrow> fault + (bool \<times> int)" where
  "ref_after p r = (case r of Inl e \<Rightarrow> Inl e | Inr (b, s) \<Rightarrow> Inr (b, ref (procs s p)))"

subsection \<open>Example states\<close>

definition proc0 :: proc where
  "proc0 = \<lparr>region_base = 0, region_len = 0, page_paddrs = (\<lambda>_. 0), kill = False, ref = 0,
     p_threads = [], next_thread_rr = 0, overflow_queue = [], nr_overflows = 0, max_overflows = 0\<rparr>"

definition thread0 :: thread where
  "thread0 = \<lparr>t_p = 0, active = False, rxq = \<lparr>msgs = [], chan_size = 0\<rparr>,
     txpktq = \<lparr>msgs = [], chan_size = 0\<rparr>\<rparr>"

definition mbuf0 :: rte_mbuf where
  "mbuf0 = \<lparr>buf_addr = 0, buf_physaddr = 0, data_off = 0, refcnt = 0, buf_len = 0, pkt_len = 0,
     data_len = 0, ol_flags = 0, l4_len = 0, l3_len = 0, l2_len = 0,
     priv = \<lparr>priv_p = None, priv_th = None, completion_data = 0\<rparr>\<rparr>"

definition iokernel0 :: iokernel where
  "iokernel0 = \<lparr>procs = (\<lambda>_. proc0), thread_tab = (\<lambda>_. thread0), mbuf_tab = (\<lambda>_. mbuf0),
     mem = (\<lambda>_. 0), stats = (\<lambda>_. 0), clients = [], ts = [], tx_mbuf_pool = [], nic_txq = [],
     drain_pos = 0, pos = 0, n_pkts = 0, n_bufs = 0, bufs = (\<lambda>_. 0)\<rparr>"

definition mbuf_of :: "proc_ptr \<Rightarrow> thread_ptr \<Rightarrow> 64 word \<Rightarrow> rte_mbuf" where
  "mbuf_of p th cd = mbuf0\<lparr>priv := \<lparr>priv_p = Some p, priv_th = Some th, completion_data = cd\<rparr>\<rparr>"

definition ring_full_state :: iokernel where
  "ring_full_state = iokernel0\<lparr>
     procs := (\<lambda>_. proc0)(0 := proc0\<lparr>ref := 3, p_threads := [0], overflow_queue := [0, 0],
                                     max_overflows := 2\<rparr>),
     thread_tab := (\<lambda>_. thread0)(0 := thread0\<lparr>active := True,
                                     rxq := \<lparr>msgs = [(1, 7), (1, 8)], chan_size = 2\<rparr>\<rparr>),
     mbuf_tab := (\<lambda>_. mbuf0)(0 := mbuf_of 0 0 0xA1, 1 := mbuf_of 0 0 0xA2, 2 := mbuf_of 0 0 0xA3),
     clients := [0]\<rparr>"

definition overflow_full_state :: iokernel where
  "overflow_full_state = ring_full_state\<lparr>
     procs := (procs ring_full_state)(0 := (procs ring_full_state 0)\<lparr>
                overflow_queue := [0xA1, 0xA2], nr_overflows := 2\<rparr>)\<rparr>"

text \<open>
  A process with two threads and three tokens waiting in its overflow queue; both
  ingress rings are empty.
\<close>
definition two_thread_state :: iokernel where
  "two_thread_state = iokernel0\<lparr>
     procs := (\<lambda>_. proc0)(0 := proc0\<lparr>ref := 3, p_threads := [0, 1], overflow_queue := [1, 2, 3],
                                     nr_overflows := 3, max_overflows := 3\<rparr>),
     thread_tab := (\<lambda>_. thread0)(0 := thread0\<lparr>rxq := \<lparr>msgs = [], chan_size = 2\<rparr>\<rparr>,
                                   1 := thread0\<lparr>rxq := \<lparr>msgs = [], chan_size = 2\<rparr>\<rparr>),
     clients := [0]\<rparr>"

text \<open>The runtime empties the ingress ring of one of its threads.\<close>
definition runtime_consume :: "thread_ptr \<Rightarrow> iokernel \<Rightarrow> iokernel" where
  "runtime_consume th s =
     s\<lparr>thread_tab := (thread_tab s)(th := (thread_tab s th)\<lparr>rxq := (rxq (thread_tab s th))\<lparr>msgs := []\<rparr>\<rparr>)\<rparr>"

definition drain_after_consume :: "nat \<Rightarrow> thread_ptr \<Rightarrow> iokernel \<Rightarrow> fault + (bool \<times> iokernel)" where
  "drain_after_consume lim th s = tx_drain_completions lim (runtime_consume th s)"

lemmas fixture_defs = proc0_def thread0_def mbuf0_def iokernel0_def mbuf_of_def ring_full_state_def
  overflow_full_state_def two_thread_state_def runtime_consume_def and_then_def rx_payloads_def
  queued_tokens_def ref_after_def drain_after_consume_def

lemmas router_defs = tx_send_completion_def send_success_def send_overflow_def send_rxq_def
  rx_send_to_runtime_def lrpc_send_def proc_put_def bump_rr_def STAT_INC_def
  RX_NET_COMPLETE_def

subsection \<open>Lemmas on the completion router\<close>

lemma drain_loop_stop:
  "nr_overflows (procs s p) = 0 \<or> n \<le> i \<Longrightarrow> drain_loop p n i s = Inr (i, s)"
  by (subst drain_loop.simps) auto

lemma drain_loop_step_ok:
  assumes "0 < nr_overflows (procs s p)" and "i < n"
    and "nr_overflows (procs s p) \<le> length (overflow_queue (procs s p))"
    and "s1 = s\<lparr>procs := (procs s)(p := (procs s p)\<lparr>nr_overflows := nr_overflows (procs s p) - 1,
                 next_thread_rr := next_thread_rr (procs s p) + 1\<rparr>)\<rparr>"
    and "rx_send_to_runtime p (next_thread_rr (procs s p)) RX_NET_COMPLETE
           (overflow_queue (procs s p) ! (nr_overflows (procs s p) - 1)) s1 = (True, s2)"
  shows "drain_loop p n i s = drain_loop p n (i + 1) s2"
  using assms by (subst drain_loop.simps) (auto simp: Let_def)

lemma drain_loop_step_fail:
  assumes "0 < nr_overflows (procs s p)" and "i < n"
    and "nr_overflows (procs s p) \<le> length (overflow_queue (procs s p))"
    and "s1 = s\<lparr>procs := (procs s)(p := (procs s p)\<lparr>nr_overflows := nr_overflows (procs s p) - 1,
                 next_thread_rr := next_thread_rr (procs s p) + 1\<rparr>)\<rparr>"
    and "rx_send_to_runtime p (next_thread_rr (procs s p)) RX_NET_COMPLETE
           (overflow_queue (procs s p) ! (nr_overflows (procs s p) - 1)) s1 = (False, s2)"
  shows "drain_loop p n i s =
           Inr (i, s2\<lparr>procs := (procs s2)(p := (procs s2 p)\<lparr>
                        nr_overflows := nr_overflows (procs s2 p) + 1\<rparr>)\<rparr>)"
  using assms by (subst drain_loop.simps) (auto simp: Let_def)

lemma drop_last_split:
  assumes "length xs = Suc k" and "j \<le> k"
  shows "rev (drop (k - j) xs) = xs ! k # rev (drop (k - j) (take k xs))"
proof -
  have "xs = take k xs @ [xs ! k]"
    using assms(1) by (metis lessI take_Suc_conv_app_nth take_all order_refl)
  then have "drop (k - j) xs = drop (k - j) (take k xs @ [xs ! k])" by simp
  also have "\<dots> = drop (k - j) (take k xs) @ [xs ! k]" using assms by simp
  finally show ?thesis by simp
qed

text \<open>
  Of the tokens \<open>xs\<close>, sent one after another by \<open>rx_send_to_runtime\<close> with the
  cursor values \<open>rr\<close>, \<open>rr + 1\<close>, ..., those that go to the ring of thread \<open>t\<close>, in
  the order in which they are sent.
\<close>
fun rr_share :: "thread_ptr list \<Rightarrow> 32 word \<Rightarrow> 64 word list \<Rightarrow> thread_ptr \<Rightarrow> 64 word list" where
  "rr_share ths rr [] t = []"
| "rr_share ths rr (x # xs) t =
     (if ths ! (unat rr mod length ths) = t then [x] else []) @ rr_share ths (rr + 1) xs t"

text \<open>The thread that the cursor value \<open>rr\<close> selects among the threads of a process.\<close>
definition rr_thread :: "proc \<Rightarrow> 32 word \<Rightarrow> thread_ptr" where
  "rr_thread pr rr = p_threads pr ! (unat rr mod length (p_threads pr))"

lemma mod_two_threads: "x mod Suc (Suc 0) = x mod 2"
  by (simp add: numeral_2_eq_2)

lemma rx_send_to_runtime_eq:
  "rx_send_to_runtime p h cmd x s =
     (let d = rr_thread (procs s p) h in
      if p_threads (procs s p) = [] \<or> ring_room (rxq (thread_tab s d)) = 0 then (False, s)
      else (True, s\<lparr>thread_tab := (thread_tab s)(d := (thread_tab s d)\<lparr>rxq :=
              (rxq (thread_tab s d))\<lparr>msgs := msgs (rxq (thread_tab s d)) @ [(cmd, x)]\<rparr>\<rparr>)\<rparr>))"
  by (auto simp: rx_send_to_runtime_def send_rxq_def lrpc_send_def ring_room_def Let_def
      rr_thread_def)

lemma drain_loop_rr:
  assumes "nr_overflows (procs s p) \<le> length (overflow_queue (procs s p))"
    and "k = nr_overflows (procs s p)"
  shows "\<exists>j s'. drain_loop p n i s = Inr (i + int j, s')
         \<and> j \<le> k \<and> (j = 0 \<or> i + int j \<le> n)
         \<and> overflow_tokens (procs s' p) = take (k - j) (overflow_tokens (procs s p))
         \<and> (\<forall>t. msgs (rxq (thread_tab s' t)) =
                msgs (rxq (thread_tab s t)) @
                map (Pair RX_NET_COMPLETE)
                  (rr_share (p_threads (procs s p)) (next_thread_rr (procs s p))
                     (rev (drop (k - j) (overflow_tokens (procs s p)))) t))
         \<and> (j < k \<and> i + int j < n \<longrightarrow>
              p_threads (procs s p) = [] \<or>
              ring_room (rxq (thread_tab s'
                (rr_thread (procs s p) (next_thread_rr (procs s p) + of_nat j)))) = 0)"
  using assms
proof (induction k arbitrary: s i)
  case 0
  then have nr0: "nr_overflows (procs s p) = 0" by simp
  then have "drain_loop p n i s = Inr (i, s)" by (intro drain_loop_stop) simp
  then show ?case by (intro exI [of _ 0] exI [of _ s]) (simp add: overflow_tokens_def nr0)
next
  case (Suc k)
  let ?pr = "procs s p"
  let ?ths = "p_threads ?pr" and ?rr = "next_thread_rr ?pr"
  let ?toks = "overflow_tokens ?pr"
  have nr: "nr_overflows ?pr = Suc k" using Suc.prems by simp
  have len: "length ?toks = Suc k" using Suc.prems by (simp add: overflow_tokens_def)
  have nth: "?toks ! k = overflow_queue ?pr ! k" using nr by (simp add: overflow_tokens_def)
  show ?case
  proof (cases "i < n")
    case False
    then have "drain_loop p n i s = Inr (i, s)" by (intro drain_loop_stop) simp
    with False show ?thesis
      by (intro exI [of _ 0] exI [of _ s]) (simp add: overflow_tokens_def nr len [unfolded overflow_tokens_def])
  next
    case True
    define s1 where "s1 = s\<lparr>procs := (procs s)(p := ?pr\<lparr>nr_overflows := nr_overflows ?pr - 1,
                 next_thread_rr := next_thread_rr ?pr + 1\<rparr>)\<rparr>"
    let ?d = "rr_thread ?pr ?rr"
    have d1: "rr_thread (procs s1 p) ?rr = ?d" "p_threads (procs s1 p) = ?ths"
      "thread_tab s1 = thread_tab s"
      by (simp_all add: s1_def rr_thread_def)
    show ?thesis
    proof (cases "?ths = [] \<or> ring_room (rxq (thread_tab s ?d)) = 0")
      case full: True
      then have snd: "rx_send_to_runtime p ?rr RX_NET_COMPLETE
           (overflow_queue ?pr ! (nr_overflows ?pr - 1)) s1 = (False, s1)"
        by (simp add: rx_send_to_runtime_eq d1 Let_def)
      define s' where "s' = s1\<lparr>procs := (procs s1)(p := (procs s1 p)\<lparr>
                        nr_overflows := nr_overflows (procs s1 p) + 1\<rparr>)\<rparr>"
      have r: "drain_loop p n i s = Inr (i, s')"
        unfolding s'_def using True nr Suc.prems(1) s1_def snd
        by (intro drain_loop_step_fail) simp_all
      have t: "thread_tab s' = thread_tab s" by (simp add: s'_def s1_def)
      have q: "overflow_tokens (procs s' p) = ?toks"
        using nr by (simp add: s'_def s1_def overflow_tokens_def)
      show ?thesis
        unfolding r using full len
        by (intro exI [of _ 0] exI [of _ s']) (simp add: t q)
    next
      case room: False
      let ?x = "overflow_queue ?pr ! (nr_overflows ?pr - 1)"
      define s2 where "s2 = s1\<lparr>thread_tab := (thread_tab s1)(?d := (thread_tab s1 ?d)\<lparr>rxq :=
              (rxq (thread_tab s1 ?d))\<lparr>msgs := msgs (rxq (thread_tab s1 ?d)) @ [(RX_NET_COMPLETE, ?x)]\<rparr>\<rparr>)\<rparr>"
      have snd: "rx_send_to_runtime p ?rr RX_NET_COMPLETE ?x s1 = (True, s2)"
        using room by (simp add: rx_send_to_runtime_eq d1 Let_def s2_def)
      have step: "drain_loop p n i s = drain_loop p n (i + 1) s2"
        using True nr Suc.prems(1) s1_def snd by (intro drain_loop_step_ok) simp_all
      have p2: "procs s2 p = ?pr\<lparr>nr_overflows := k, next_thread_rr := ?rr + 1\<rparr>"
        using nr by (simp add: s2_def s1_def)
      have ths2: "p_threads (procs s2 p) = ?ths" and rr2: "next_thread_rr (procs s2 p) = ?rr + 1"
        and nr2: "nr_overflows (procs s2 p) = k"
        and rt2: "\<And>h. rr_thread (procs s2 p) h = rr_thread ?pr h"
        by (simp_all add: p2 rr_thread_def)
      have tok2: "overflow_tokens (procs s2 p) = take k ?toks"
        using nr by (simp add: p2 overflow_tokens_def min_def)
      have len2: "nr_overflows (procs s2 p) \<le> length (overflow_queue (procs s2 p))"
        using Suc.prems(1) nr by (simp add: p2)
      have msgs2: "\<And>t. msgs (rxq (thread_tab s2 t)) =
          msgs (rxq (thread_tab s t)) @ (if ?d = t then [(RX_NET_COMPLETE, ?x)] else [])"
        by (simp add: s2_def s1_def)
      from Suc.IH [OF len2 nr2 [symmetric], of "i + 1"] obtain j s' where
        r: "drain_loop p n (i + 1) s2 = Inr (i + 1 + int j, s')" and
        jk: "j \<le> k" and jn: "j = 0 \<or> i + 1 + int j \<le> n" and
        q: "overflow_tokens (procs s' p) = take (k - j) (take k ?toks)" and
        m: "\<And>t. msgs (rxq (thread_tab s' t)) = msgs (rxq (thread_tab s2 t)) @
               map (Pair RX_NET_COMPLETE) (rr_share ?ths (?rr + 1) (rev (drop (k - j) (take k ?toks))) t)" and
        st: "j < k \<and> i + 1 + int j < n \<longrightarrow> ?ths = [] \<or>
              ring_room (rxq (thread_tab s' (rr_thread ?pr (?rr + 1 + of_nat j)))) = 0"
        unfolding ths2 rr2 tok2 rt2 by blast
      have x: "?x = ?toks ! k" using nr nth by simp
      have sends: "rev (drop (Suc k - Suc j) ?toks) = ?x # rev (drop (k - j) (take k ?toks))"
        unfolding x using drop_last_split [OF len jk] by simp
      have a: "drain_loop p n i s = Inr (i + int (Suc j), s')" using step r by simp
      have b: "Suc j \<le> Suc k" "Suc j = 0 \<or> i + int (Suc j) \<le> n" using jk jn True by auto
      have c: "overflow_tokens (procs s' p) = take (Suc k - Suc j) ?toks"
        unfolding q by (simp add: min_def)
      have d: "\<forall>t. msgs (rxq (thread_tab s' t)) = msgs (rxq (thread_tab s t)) @
               map (Pair RX_NET_COMPLETE) (rr_share ?ths ?rr (rev (drop (Suc k - Suc j) ?toks)) t)"
        unfolding sends m msgs2 by (simp add: rr_thread_def)
      have e: "Suc j < Suc k \<and> i + int (Suc j) < n \<longrightarrow> ?ths = [] \<or>
              ring_room (rxq (thread_tab s' (rr_thread ?pr (?rr + of_nat (Suc j))))) = 0"
        using st by (simp add: add.assoc add.commute [of 1])
      from a b c d e show ?thesis by blast
    qed
  qed
qed

lemma send_rxq_full_eq:
  "ring_room (rxq (thread_tab s th)) = 0 \<Longrightarrow> send_rxq th cmd x s = (False, s)"
  by (simp add: send_rxq_def lrpc_send_def ring_room_def)

lemma tx_send_completion_spill:
  assumes "priv (mbuf_tab s obj) = \<lparr>priv_p = Some p, priv_th = Some th, completion_data = cd\<rparr>"
    and "cd \<noteq> 0" and "\<not> kill (procs s p)"
    and "active (thread_tab s th)" and "ring_room (rxq (thread_tab s th)) = 0"
    and "nr_overflows (procs s p) \<noteq> max_overflows (procs s p)"
    and "nr_overflows (procs s p) < length (overflow_queue (procs s p))"
  shows "\<exists>s'. tx_send_completion obj s = Inr (True, s') \<and>
           overflow_tokens (procs s' p) = overflow_tokens (procs s p) @ [cd]"
  using assms
  by (simp add: tx_send_completion_def send_rxq_full_eq send_overflow_def send_success_def
      STAT_INC_def proc_put_def overflow_tokens_def take_Suc_conv_app_nth Let_def)

lemma send_rxq_cases:
  "send_rxq th cmd x s = (ok, s') \<Longrightarrow>
     procs s' = procs s \<and>
     (if ok then msgs (rxq (thread_tab s' th)) = msgs (rxq (thread_tab s th)) @ [(cmd, x)]
      else thread_tab s' = thread_tab s)"
  by (auto simp: send_rxq_def lrpc_send_def split: if_splits)

lemma rx_send_to_runtime_cases:
  "rx_send_to_runtime p h cmd x s = (ok, s') \<Longrightarrow>
     procs s' = procs s \<and>
     (if ok then \<exists>th. msgs (rxq (thread_tab s' th)) = msgs (rxq (thread_tab s th)) @ [(cmd, x)]
      else thread_tab s' = thread_tab s)"
  by (auto simp: rx_send_to_runtime_def Let_def dest!: send_rxq_cases split: if_splits)

text \<open>
  Lines 133 to 144 of \<open>tx_send_completion\<close>: the send to the thread of the buffer
  when it is active, to the thread chosen by the process's cursor otherwise.
\<close>
definition send_attempt :: "proc_ptr \<Rightarrow> thread_ptr \<Rightarrow> 64 word \<Rightarrow> iokernel \<Rightarrow> bool \<times> iokernel" where
  "send_attempt p th cd s =
     (if active (thread_tab s th) then send_rxq th RX_NET_COMPLETE cd s
      else rx_send_to_runtime p (next_thread_rr (procs s p)) RX_NET_COMPLETE cd (bump_rr p s))"

lemma overflow_tokens_bump_rr [simp]:
  "overflow_tokens (procs (bump_rr p s) q) = overflow_tokens (procs s q)"
  by (simp add: bump_rr_def overflow_tokens_def)

lemma overflow_tokens_proc_put [simp]:
  "overflow_tokens (procs (proc_put p s) q) = overflow_tokens (procs s q)"
  by (simp add: proc_put_def overflow_tokens_def)

lemma send_attempt_cases:
  assumes "send_attempt p th cd s = (ok, s1)"
  shows "(\<forall>q. overflow_tokens (procs s1 q) = overflow_tokens (procs s q))
       \<and> nr_overflows (procs s1 p) = nr_overflows (procs s p)
       \<and> max_overflows (procs s1 p) = max_overflows (procs s p)
       \<and> overflow_queue (procs s1 p) = overflow_queue (procs s p)
       \<and> (if ok then \<exists>t. msgs (rxq (thread_tab s1 t)) \<noteq> msgs (rxq (thread_tab s t))
           else thread_tab s1 = thread_tab s)"
proof (cases "active (thread_tab s th)")
  case True
  with assms have "send_rxq th RX_NET_COMPLETE cd s = (ok, s1)" by (simp add: send_attempt_def)
  from send_rxq_cases [OF this] have a: "procs s1 = procs s"
    and b: "if ok then msgs (rxq (thread_tab s1 th)) = msgs (rxq (thread_tab s th)) @ [(RX_NET_COMPLETE, cd)]
       else thread_tab s1 = thread_tab s" by auto
  show ?thesis
  proof (cases ok)
    case True
    with b have "msgs (rxq (thread_tab s1 th)) \<noteq> msgs (rxq (thread_tab s th))" by simp
    then have "\<exists>t. msgs (rxq (thread_tab s1 t)) \<noteq> msgs (rxq (thread_tab s t))" by blast
    with True a show ?thesis by simp
  next
    case False
    with a b show ?thesis by simp
  qed
next
  case False
  with assms have "rx_send_to_runtime p (next_thread_rr (procs s p)) RX_NET_COMPLETE cd (bump_rr p s) = (ok, s1)"
    by (simp add: send_attempt_def)
  from rx_send_to_runtime_cases [OF this]
  have a: "procs s1 = procs (bump_rr p s)"
    and b: "if ok then \<exists>t. msgs (rxq (thread_tab s1 t)) = msgs (rxq (thread_tab (bump_rr p s) t)) @ [(RX_NET_COMPLETE, cd)]
       else thread_tab s1 = thread_tab (bump_rr p s)" by auto
  have c: "thread_tab (bump_rr p s) = thread_tab s" by (simp add: bump_rr_def)
  have d: "nr_overflows (procs (bump_rr p s) p) = nr_overflows (procs s p)"
    "max_overflows (procs (bump_rr p s) p) = max_overflows (procs s p)"
    "overflow_queue (procs (bump_rr p s) p) = overflow_queue (procs s p)"
    by (simp_all add: bump_rr_def)
  show ?thesis
  proof (cases ok)
    case True
    with b obtain t where "msgs (rxq (thread_tab s1 t)) = msgs (rxq (thread_tab s t)) @ [(RX_NET_COMPLETE, cd)]"
      unfolding c by auto
    then have "msgs (rxq (thread_tab s1 t)) \<noteq> msgs (rxq (thread_tab s t))" by simp
    then have "\<exists>t. msgs (rxq (thread_tab s1 t)) \<noteq> msgs (rxq (thread_tab s t))" by blast
    with True show ?thesis unfolding a d by simp
  next
    case False
    with b show ?thesis unfolding a c d by simp
  qed
qed

lemma tx_send_completion_unfold:
  assumes "priv (mbuf_tab s obj) = \<lparr>priv_p = Some p, priv_th = Some th, completion_data = cd\<rparr>"
  shows "tx_send_completion obj s =
     (if kill (procs s p) \<or> cd = 0 then Inr (True, proc_put p s)
      else case send_attempt p th cd s of
             (True, s') \<Rightarrow> send_success p s'
           | (False, s') \<Rightarrow> send_overflow p cd s')"
  using assms by (auto simp: tx_send_completion_def send_attempt_def Let_def split: prod.splits bool.splits)

lemma enqueued_nowhere_proc_put: "enqueued_nowhere s (proc_put p s)"
  by (simp add: enqueued_nowhere_def) (simp add: proc_put_def)

subsection \<open>Claims on the completion router\<close>

text \<open>
  C10. If the private trailer of the released buffer holds a NULL process pointer (the
  state \<open>tx_pktmbuf_priv_init\<close> gives every pool buffer), \<open>tx_send_completion\<close>
  returns true and the state is unchanged: no reference count moves, nothing is sent
  to a ring and nothing enters an overflow queue.
\<close>
theorem tx_send_completion_null_proc:
  "priv_p (priv (mbuf_tab s obj)) = None \<Longrightarrow> tx_send_completion obj s = Inr (True, s)"
  by (simp add: tx_send_completion_def)

theorem tx_send_completion_null_proc_witness:
  "priv_p (priv (mbuf_tab (tx_pktmbuf_priv_init 5 ring_full_state) 5)) = None \<and>
   tx_send_completion 5 (tx_pktmbuf_priv_init 5 ring_full_state) =
     Inr (True, tx_pktmbuf_priv_init 5 ring_full_state)"
proof -
  have h: "priv_p (priv (mbuf_tab (tx_pktmbuf_priv_init 5 ring_full_state) 5)) = None"
    by (simp add: tx_pktmbuf_priv_init_def)
  from h tx_send_completion_null_proc [OF h] show ?thesis by simp
qed

text \<open>
  C1, as stated, fails. Two buffers of process 0 are released while the ingress ring is
  full, so their tokens 0xA1 and 0xA2 enter the overflow queue in that order; the
  runtime then empties its ring and \<open>tx_drain_completions\<close> runs. The ring receives
  0xA2 first and 0xA1 second: the reverse of the order of entry.
\<close>
theorem overflow_queue_not_fifo:
  "queued_tokens 0 (and_then (tx_send_completion 0 ring_full_state) (tx_send_completion 1))
     = Inr [0xA1, 0xA2] \<and>
   rx_payloads 0
     (and_then (and_then (tx_send_completion 0 ring_full_state) (tx_send_completion 1))
        (drain_after_consume 8 0))
     = Inr [0xA2, 0xA1]"
  by (simp add: fixture_defs router_defs overflow_tokens_def tx_drain_completions_def
      drain_clients.simps drain_overflow_queue_def drain_loop.simps Let_def)

text \<open>
  C1, amended. For every process, \<open>drain_overflow_queue\<close> takes tokens from the end
  of the overflow queue. A call removes the \<open>j\<close> most recently queued tokens and sends
  them newest first (the reverse of the order in which \<open>tx_send_completion\<close> queued
  them, lemma \<open>tx_send_completion_spill\<close>), each to the thread that the round-robin
  cursor of the process selects, so the ring of every thread receives its share of
  them newest first; the oldest tokens stay in the queue, in their order. The call
  returns \<open>j\<close>, and it stops short of the queue and of its batch argument \<open>n\<close> only
  when the ring selected next is full (or the process has no thread).
\<close>
theorem drain_overflow_queue_lifo:
  assumes "nr_overflows (procs s p) \<le> length (overflow_queue (procs s p))"
  shows "\<exists>j s'. drain_overflow_queue p n s = Inr (int j, s')
         \<and> j \<le> nr_overflows (procs s p) \<and> int j \<le> max 0 n
         \<and> overflow_tokens (procs s' p) =
             take (nr_overflows (procs s p) - j) (overflow_tokens (procs s p))
         \<and> (\<forall>t. msgs (rxq (thread_tab s' t)) =
                msgs (rxq (thread_tab s t)) @
                map (Pair RX_NET_COMPLETE)
                  (rr_share (p_threads (procs s p)) (next_thread_rr (procs s p))
                     (rev (drop (nr_overflows (procs s p) - j) (overflow_tokens (procs s p)))) t))
         \<and> (j < nr_overflows (procs s p) \<and> int j < n \<longrightarrow>
              p_threads (procs s p) = [] \<or>
              ring_room (rxq (thread_tab s'
                (rr_thread (procs s p) (next_thread_rr (procs s p) + of_nat j)))) = 0)"
proof -
  from drain_loop_rr [OF assms refl, of n 0] obtain j s' where
    "drain_loop p n 0 s = Inr (0 + int j, s')" "j \<le> nr_overflows (procs s p)"
    "j = 0 \<or> 0 + int j \<le> n"
    "overflow_tokens (procs s' p) =
             take (nr_overflows (procs s p) - j) (overflow_tokens (procs s p))"
    "\<forall>t. msgs (rxq (thread_tab s' t)) =
                msgs (rxq (thread_tab s t)) @
                map (Pair RX_NET_COMPLETE)
                  (rr_share (p_threads (procs s p)) (next_thread_rr (procs s p))
                     (rev (drop (nr_overflows (procs s p) - j) (overflow_tokens (procs s p)))) t)"
    "j < nr_overflows (procs s p) \<and> 0 + int j < n \<longrightarrow>
              p_threads (procs s p) = [] \<or>
              ring_room (rxq (thread_tab s'
                (rr_thread (procs s p) (next_thread_rr (procs s p) + of_nat j)))) = 0"
    by blast
  then show ?thesis
    unfolding drain_overflow_queue_def by (intro exI [of _ j] exI [of _ s']) auto
qed

theorem drain_overflow_queue_lifo_witness:
  "nr_overflows (procs two_thread_state 0) \<le> length (overflow_queue (procs two_thread_state 0)) \<and>
   overflow_tokens (procs two_thread_state 0) = [1, 2, 3] \<and>
   (\<exists>s'. drain_overflow_queue 0 8 two_thread_state = Inr (3, s') \<and>
      msgs (rxq (thread_tab s' 0)) = [(RX_NET_COMPLETE, 3), (RX_NET_COMPLETE, 1)] \<and>
      msgs (rxq (thread_tab s' 1)) = [(RX_NET_COMPLETE, 2)] \<and>
      overflow_tokens (procs s' 0) = [])"
proof -
  let ?s = "two_thread_state"
  have h: "nr_overflows (procs ?s 0) \<le> length (overflow_queue (procs ?s 0))"
    by (simp add: fixture_defs)
  have n: "nr_overflows (procs ?s 0) = 3" "overflow_tokens (procs ?s 0) = [1, 2, 3]"
    "p_threads (procs ?s 0) = [0, 1]" "next_thread_rr (procs ?s 0) = 0"
    "msgs (rxq (thread_tab ?s 0)) = []" "msgs (rxq (thread_tab ?s 1)) = []"
    by (simp_all add: fixture_defs overflow_tokens_def)
  obtain s0 where c: "drain_overflow_queue 0 8 ?s = Inr (3, s0)"
    by (simp add: fixture_defs router_defs drain_overflow_queue_def drain_loop.simps
        Let_def mod_two_threads)
  from drain_overflow_queue_lifo [OF h, of 8] obtain j s' where
    r: "drain_overflow_queue 0 8 ?s = Inr (int j, s')" and
    q: "overflow_tokens (procs s' 0) =
          take (nr_overflows (procs ?s 0) - j) (overflow_tokens (procs ?s 0))" and
    m: "\<forall>t. msgs (rxq (thread_tab s' t)) =
          msgs (rxq (thread_tab ?s t)) @
          map (Pair RX_NET_COMPLETE)
            (rr_share (p_threads (procs ?s 0)) (next_thread_rr (procs ?s 0))
               (rev (drop (nr_overflows (procs ?s 0) - j) (overflow_tokens (procs ?s 0)))) t)"
    by blast
  from r c have j: "j = 3" and s: "s' = s0" by simp_all
  from m [rule_format, of 0] m [rule_format, of 1] q have
    "msgs (rxq (thread_tab s0 0)) = [(RX_NET_COMPLETE, 3), (RX_NET_COMPLETE, 1)] \<and>
     msgs (rxq (thread_tab s0 1)) = [(RX_NET_COMPLETE, 2)] \<and> overflow_tokens (procs s0 0) = []"
    unfolding j s n by (simp add: mod_two_threads)
  with h n(2) c show ?thesis by blast
qed

text \<open>
  C2, at the one path where the code does not do what the claim says. The buffer's
  process is alive, its token 0xA3 is not zero, the ring of its thread is full and the
  overflow queue is full: \<open>tx_send_completion\<close> returns false at line 148 without
  calling \<open>proc_put\<close>, and the reference count of the process is still 3.
\<close>
theorem tx_send_completion_overflow_full_keeps_ref:
  "priv (mbuf_tab overflow_full_state 2) =
     \<lparr>priv_p = Some 0, priv_th = Some 0, completion_data = 0xA3\<rparr> \<and>
   ref (procs overflow_full_state 0) = 3 \<and>
   ref_after 0 (tx_send_completion 2 overflow_full_state) = Inr (False, 3)"
  by (simp add: fixture_defs router_defs)

text \<open>
  C9, as stated, fails in the same state: the token is not zero and the process is not
  killed, yet no record is enqueued anywhere (the state is returned as it was) and
  the call returns false.
\<close>
theorem tx_send_completion_full_no_enqueue:
  "completion_data (priv (mbuf_tab overflow_full_state 2)) \<noteq> 0 \<and>
   \<not> kill (procs overflow_full_state 0) \<and>
   tx_send_completion 2 overflow_full_state = Inr (False, overflow_full_state)"
  by (simp add: fixture_defs router_defs)

text \<open>
  C9, amended. For a buffer of process \<open>p\<close> (with the overflow array as large as
  \<open>max_overflows\<close> says), \<open>tx_send_completion\<close> returns, and it enqueues a record
  on a ring or on the overflow queue if and only if the token is not zero, \<open>p\<close> is not
  killed and the call returns true. With a zero token or a killed process it returns
  true; it returns false only when the overflow queue is full.
\<close>
theorem tx_send_completion_enqueue_iff:
  assumes pv: "priv (mbuf_tab s obj) = \<lparr>priv_p = Some p, priv_th = Some th, completion_data = cd\<rparr>"
    and le: "nr_overflows (procs s p) \<le> max_overflows (procs s p)"
    and cap: "max_overflows (procs s p) \<le> length (overflow_queue (procs s p))"
  shows "\<exists>r s'. tx_send_completion obj s = Inr (r, s') \<and>
           (\<not> enqueued_nowhere s s') = (cd \<noteq> 0 \<and> \<not> kill (procs s p) \<and> r) \<and>
           (cd = 0 \<or> kill (procs s p) \<longrightarrow> r) \<and>
           (\<not> r \<longrightarrow> nr_overflows (procs s p) = max_overflows (procs s p))"
proof (cases "kill (procs s p) \<or> cd = 0")
  case True
  then have "tx_send_completion obj s = Inr (True, proc_put p s)"
    by (simp add: tx_send_completion_unfold [OF pv])
  with True enqueued_nowhere_proc_put [of s p] show ?thesis by auto
next
  case False
  obtain ok s1 where att: "send_attempt p th cd s = (ok, s1)" by (cases "send_attempt p th cd s")
  note c = send_attempt_cases [OF att]
  show ?thesis
  proof (cases ok)
    case True
    with c obtain t where t: "msgs (rxq (thread_tab s1 t)) \<noteq> msgs (rxq (thread_tab s t))" by auto
    let ?s' = "STAT_INC COMPLETION_ENQUEUED 1 (proc_put p s1)"
    have r: "tx_send_completion obj s = Inr (True, ?s')"
      using False att True by (simp add: tx_send_completion_unfold [OF pv] send_success_def)
    have "thread_tab ?s' = thread_tab s1" by (simp add: STAT_INC_def proc_put_def)
    with t have "\<not> enqueued_nowhere s ?s'" by (auto simp: enqueued_nowhere_def)
    with r False show ?thesis by auto
  next
    case nok: False
    with c have tt: "thread_tab s1 = thread_tab s" by simp
    from c have tok: "\<And>q. overflow_tokens (procs s1 q) = overflow_tokens (procs s q)" by simp
    from c have nr: "nr_overflows (procs s1 p) = nr_overflows (procs s p)"
      and mx: "max_overflows (procs s1 p) = max_overflows (procs s p)"
      and oq: "overflow_queue (procs s1 p) = overflow_queue (procs s p)" by simp_all
    have r0: "tx_send_completion obj s = send_overflow p cd s1"
      using False att nok by (simp add: tx_send_completion_unfold [OF pv])
    show ?thesis
    proof (cases "nr_overflows (procs s p) = max_overflows (procs s p)")
      case True
      then have r: "tx_send_completion obj s = Inr (False, s1)"
        unfolding r0 by (simp add: send_overflow_def nr mx)
      have "enqueued_nowhere s s1" by (simp add: enqueued_nowhere_def tt tok)
      with r True False show ?thesis by auto
    next
      case neq: False
      with le cap have lt: "nr_overflows (procs s p) < length (overflow_queue (procs s p))" by simp
      let ?s2 = "s1\<lparr>procs := (procs s1)(p := (procs s1 p)\<lparr>
                   overflow_queue := (overflow_queue (procs s1 p))[nr_overflows (procs s1 p) := cd],
                   nr_overflows := nr_overflows (procs s1 p) + 1\<rparr>)\<rparr>"
      let ?s' = "STAT_INC COMPLETION_ENQUEUED 1 (proc_put p
                   (STAT_INC TX_COMPLETION_OVERFLOW 1 (STAT_INC COMPLETION_ENQUEUED (- 1) ?s2)))"
      have r: "tx_send_completion obj s = Inr (True, ?s')"
        unfolding r0 using neq lt by (simp add: send_overflow_def nr mx oq send_success_def Let_def)
      have "length (overflow_tokens (procs ?s' p)) = nr_overflows (procs s p) + 1"
        using lt by (simp add: overflow_tokens_def STAT_INC_def proc_put_def nr oq)
      moreover have "length (overflow_tokens (procs s p)) = nr_overflows (procs s p)"
        using lt by (simp add: overflow_tokens_def)
      ultimately have "overflow_tokens (procs ?s' p) \<noteq> overflow_tokens (procs s p)"
        by (metis Suc_eq_plus1 n_not_Suc_n)
      then have "\<not> enqueued_nowhere s ?s'" unfolding enqueued_nowhere_def by blast
      with r False show ?thesis by auto
    qed
  qed
qed

theorem tx_send_completion_enqueue_iff_witness:
  "priv (mbuf_tab ring_full_state 0) =
     \<lparr>priv_p = Some 0, priv_th = Some 0, completion_data = 0xA1\<rparr> \<and>
   nr_overflows (procs ring_full_state 0) \<le> max_overflows (procs ring_full_state 0) \<and>
   max_overflows (procs ring_full_state 0) \<le> length (overflow_queue (procs ring_full_state 0)) \<and>
   (\<exists>s'. tx_send_completion 0 ring_full_state = Inr (True, s') \<and>
          \<not> enqueued_nowhere ring_full_state s')"
proof -
  have h1: "priv (mbuf_tab ring_full_state 0) =
     \<lparr>priv_p = Some 0, priv_th = Some 0, completion_data = 0xA1\<rparr>"
    by (simp add: fixture_defs)
  have h2: "nr_overflows (procs ring_full_state 0) \<le> max_overflows (procs ring_full_state 0)"
    by (simp add: fixture_defs)
  have h3: "max_overflows (procs ring_full_state 0)
              \<le> length (overflow_queue (procs ring_full_state 0))"
    by (simp add: fixture_defs)
  have k: "\<not> kill (procs ring_full_state 0)"
    and n: "nr_overflows (procs ring_full_state 0) \<noteq> max_overflows (procs ring_full_state 0)"
    by (simp_all add: fixture_defs)
  from tx_send_completion_enqueue_iff [OF h1 h2 h3] obtain r s' where
    r: "tx_send_completion 0 ring_full_state = Inr (r, s')" and
    e: "(\<not> enqueued_nowhere ring_full_state s') =
          ((0xA1 :: 64 word) \<noteq> 0 \<and> \<not> kill (procs ring_full_state 0) \<and> r)" and
    f: "\<not> r \<longrightarrow> nr_overflows (procs ring_full_state 0) = max_overflows (procs ring_full_state 0)"
    by blast
  from f n have "r" by blast
  with r e k have "tx_send_completion 0 ring_full_state = Inr (True, s') \<and>
          \<not> enqueued_nowhere ring_full_state s'" by simp
  with h1 h2 h3 show ?thesis by blast
qed

subsection \<open>Lemmas on packet memory and the segmenter\<close>

lemma length_le_bytes [simp]: "length (le_bytes k n) = k"
  by (induction k arbitrary: n) auto

lemma le_nat_le_bytes: "le_nat (le_bytes k n) = n mod 256 ^ k"
proof (induction k arbitrary: n)
  case 0
  show ?case by simp
next
  case (Suc k)
  have "unat (of_nat (n mod 256) :: 8 word) = n mod 256"
    by (simp add: unat_of_nat)
  then show ?case
    by (simp add: Suc mod_mult2_eq)
qed

lemma load_store_bytes_same: "load_bytes (store_bytes m a bs) a (length bs) = bs"
  by (auto simp: load_bytes_def store_bytes_def intro: nth_equalityI)

lemma store_bytes_outside: "x < a \<or> a + int (length bs) \<le> x \<Longrightarrow> store_bytes m a bs x = m x"
  by (auto simp: store_bytes_def)

lemma load_bytes_cong: "(\<And>i. i < n \<Longrightarrow> m' (a + int i) = m (a + int i)) \<Longrightarrow> load_bytes m' a n = load_bytes m a n"
  by (simp add: load_bytes_def)

lemma load_store_bytes_disjoint:
  "a + int n \<le> b \<or> b + int (length bs) \<le> a \<Longrightarrow> load_bytes (store_bytes m b bs) a n = load_bytes m a n"
  by (rule load_bytes_cong) (auto simp: store_bytes_def)

lemma load32_store32 [simp]: "load32 (store32 m a w) a = w"
proof -
  have "unat w < 2 ^ 32" using unsigned_less [of w] by simp
  then have "unat w mod 256 ^ 4 = unat w" by simp
  with load_store_bytes_same [of m a "le_bytes 4 (unat w)"] show ?thesis
    by (simp add: load32_def store32_def le_nat_le_bytes)
qed

lemma load64_store64 [simp]: "load64 (store64 m a w) a = w"
proof -
  have "unat w < 2 ^ 64" using unsigned_less [of w] by simp
  then have "unat w mod 256 ^ 8 = unat w" by simp
  with load_store_bytes_same [of m a "le_bytes 8 (unat w)"] show ?thesis
    by (simp add: load64_def store64_def le_nat_le_bytes)
qed

lemma load_be16_store_be16 [simp]: "load_be16 (store_be16 m a w) a = w"
proof -
  have "unat w < 2 ^ 16" using unsigned_less [of w] by simp
  then have "unat w mod 256 ^ 2 = unat w" by simp
  with load_store_bytes_same [of m a "rev (le_bytes 2 (unat w))"] show ?thesis
    by (simp add: load_be16_def store_be16_def le_nat_le_bytes)
qed

lemma length_load_bytes [simp]: "length (load_bytes m a n) = n"
  by (simp add: load_bytes_def)

lemma store32_outside: "x < a \<or> a + 4 \<le> x \<Longrightarrow> store32 m a w x = m x"
  by (simp add: store32_def store_bytes_outside)

lemma store64_outside: "x < a \<or> a + 8 \<le> x \<Longrightarrow> store64 m a w x = m x"
  by (simp add: store64_def store_bytes_outside)

lemma store_be16_outside: "x < a \<or> a + 2 \<le> x \<Longrightarrow> store_be16 m a w x = m x"
  by (simp add: store_be16_def store_bytes_outside)

lemma memmove_ok:
  "in_region r d n \<Longrightarrow> in_region r s n \<Longrightarrow>
     memmove r m d s n = Inr (store_bytes m d (load_bytes m s n))"
  by (simp add: memmove_def)

lemma memmove_outside:
  "memmove r m d s n = Inr m' \<Longrightarrow> x < d \<or> d + int n \<le> x \<Longrightarrow> m' x = m x"
  by (auto simp: memmove_def store_bytes_outside split: if_splits)

lemma memmove_inside:
  "memmove r m d s n = Inr m' \<Longrightarrow> d \<le> x \<Longrightarrow> x < d + int n \<Longrightarrow> m' x = m (s + (x - d))"
  by (auto simp: memmove_def store_bytes_def load_bytes_def nat_less_iff split: if_splits)

text \<open>
  The 60 bytes of the header block at \<open>a'\<close> in \<open>m'\<close> are those at \<open>a\<close> in \<open>m\<close>.
\<close>
definition same_block :: "shm \<Rightarrow> addr \<Rightarrow> shm \<Rightarrow> addr \<Rightarrow> bool" where
  "same_block m' a' m a \<longleftrightarrow> (\<forall>i. 0 \<le> i \<and> i < 60 \<longrightarrow> m' (a' + i) = m (a + i))"

lemma same_block_fields:
  assumes "same_block m' a' m a"
  shows "hdr_len m' a' = hdr_len m a" "hdr_completion_data m' a' = hdr_completion_data m a"
    "udp_len m' a' = udp_len m a" "ip_total_len m' a' = ip_total_len m a"
    "hdr_olflags m' a' = hdr_olflags m a"
proof -
  have eq: "\<And>i. 0 \<le> i \<Longrightarrow> i < 60 \<Longrightarrow> m' (a' + i) = m (a + i)"
    using assms by (simp add: same_block_def)
  have b: "\<And>k n. k + int n \<le> 60 \<Longrightarrow> 0 \<le> k \<Longrightarrow> load_bytes m' (a' + k) n = load_bytes m (a + k) n"
  proof -
    fix k :: int and n :: nat
    assume "k + int n \<le> 60" "0 \<le> k"
    then show "load_bytes m' (a' + k) n = load_bytes m (a + k) n"
      using eq [of "k + int i" for i] by (simp add: load_bytes_def add.assoc)
  qed
  show "hdr_len m' a' = hdr_len m a"
    unfolding hdr_len_def load32_def using b [of 12 4] by simp
  show "hdr_completion_data m' a' = hdr_completion_data m a"
    unfolding hdr_completion_data_def load64_def using b [of 0 8] by simp
  show "udp_len m' a' = udp_len m a"
    unfolding udp_len_def hdr_payload_def load_be16_def using b [of 56 2] by (simp add: add.assoc)
  show "ip_total_len m' a' = ip_total_len m a"
    unfolding ip_total_len_def hdr_payload_def load_be16_def using b [of 34 2] by (simp add: add.assoc)
  show "hdr_olflags m' a' = hdr_olflags m a"
    unfolding hdr_olflags_def load32_def using b [of 8 4] by simp
qed

lemma load32_store_bytes:
  "b + 4 \<le> a \<or> a + int (length bs) \<le> b \<Longrightarrow> load32 (store_bytes m a bs) b = load32 m b"
  by (simp add: load32_def load_store_bytes_disjoint)

lemma load64_store_bytes:
  "b + 8 \<le> a \<or> a + int (length bs) \<le> b \<Longrightarrow> load64 (store_bytes m a bs) b = load64 m b"
  by (simp add: load64_def load_store_bytes_disjoint)

lemma load_be16_store_bytes:
  "b + 2 \<le> a \<or> a + int (length bs) \<le> b \<Longrightarrow> load_be16 (store_bytes m a bs) b = load_be16 m b"
  by (simp add: load_be16_def load_store_bytes_disjoint)

lemma load_store_other:
  "b + 4 \<le> a \<or> a + 4 \<le> b \<Longrightarrow> load32 (store32 m a w) b = load32 m b"
  "b + 4 \<le> a \<or> a + 8 \<le> b \<Longrightarrow> load32 (store64 m a v) b = load32 m b"
  "b + 4 \<le> a \<or> a + 2 \<le> b \<Longrightarrow> load32 (store_be16 m a u) b = load32 m b"
  "b + 8 \<le> a \<or> a + 4 \<le> b \<Longrightarrow> load64 (store32 m a w) b = load64 m b"
  "b + 8 \<le> a \<or> a + 8 \<le> b \<Longrightarrow> load64 (store64 m a v) b = load64 m b"
  "b + 8 \<le> a \<or> a + 2 \<le> b \<Longrightarrow> load64 (store_be16 m a u) b = load64 m b"
  "b + 2 \<le> a \<or> a + 4 \<le> b \<Longrightarrow> load_be16 (store32 m a w) b = load_be16 m b"
  "b + 2 \<le> a \<or> a + 8 \<le> b \<Longrightarrow> load_be16 (store64 m a v) b = load_be16 m b"
  "b + 2 \<le> a \<or> a + 2 \<le> b \<Longrightarrow> load_be16 (store_be16 m a u) b = load_be16 m b"
  by (simp_all add: store32_def store64_def store_be16_def
      load32_store_bytes load64_store_bytes load_be16_store_bytes)

lemmas field_defs = hdr_len_def hdr_completion_data_def hdr_olflags_def udp_len_def
  ip_total_len_def hdr_payload_def

text \<open>The fields of a segment that the claims speak of: length, token, UDP length, IP total length.\<close>
definition seg_fields :: "shm \<Rightarrow> addr \<Rightarrow> 32 word \<times> 64 word \<times> 16 word \<times> 16 word" where
  "seg_fields m a = (hdr_len m a, hdr_completion_data m a, udp_len m a, ip_total_len m a)"

lemma same_block_seg_fields: "same_block m' a' m a \<Longrightarrow> seg_fields m' a' = seg_fields m a"
  by (simp add: seg_fields_def same_block_fields)

lemma same_block_below:
  "(\<And>x. x < a + 60 \<Longrightarrow> m' x = m x) \<Longrightarrow> same_block m' a m a"
  by (simp add: same_block_def)

lemma same_block_unchanged:
  "(\<And>x. a \<le> x \<Longrightarrow> x < a + 60 \<Longrightarrow> m' x = m x) \<Longrightarrow> same_block m' a m a"
  by (simp add: same_block_def)

text \<open>The four stores of the second loop, after the copy.\<close>
definition hdr_rewrite :: "addr \<Rightarrow> shm \<Rightarrow> shm" where
  "hdr_rewrite cur m1 =
     (let m2 = store32 m1 (cur + 12) MTU_SIZE;
          m3 = store64 m2 cur 0;
          m4 = store_be16 m3 (hdr_payload cur + 38) (ucast (hdr_len m3 cur - 34))
      in store_be16 m4 (hdr_payload cur + 16) (ucast (hdr_len m4 cur - 14)))"

lemma hdr_rewrite_outside: "x < cur \<or> cur + 60 \<le> x \<Longrightarrow> hdr_rewrite cur m x = m x"
  by (auto simp: hdr_rewrite_def Let_def hdr_payload_def store_be16_outside store64_outside
      store32_outside)

lemma hdr_rewrite_fields:
  "seg_fields (hdr_rewrite cur m) cur = (1500, 0, 1466, 1486)"
  by (simp add: seg_fields_def hdr_rewrite_def Let_def field_defs load_store_other MTU_SIZE_def)

lemma gso_hdr_step_ok:
  assumes "in_region r cur 1578"
  shows "\<exists>m'. gso_hdr_step r cur m = Inr m'
          \<and> (\<forall>x. x < cur \<or> cur + 1578 \<le> x \<longrightarrow> m' x = m x)
          \<and> (\<forall>i. 0 \<le> i \<and> i < 60 \<longrightarrow> m' (cur + 1518 + i) = m (cur + i))
          \<and> seg_fields m' cur = (1500, 0, 1466, 1486)"
proof -
  let ?m1 = "store_bytes m (cur + 1518) (load_bytes m cur 60)"
  have "in_region r (cur + 1518) 60" "in_region r cur 60"
    using assms by (simp_all add: in_region_def)
  then have mv: "memmove r m (cur + 1518) cur 60 = Inr ?m1" by (rule memmove_ok)
  then have r: "gso_hdr_step r cur m = Inr (hdr_rewrite cur ?m1)"
    by (simp add: gso_hdr_step_def hdr_rewrite_def Let_def)
  have a: "\<forall>x. x < cur \<or> cur + 1578 \<le> x \<longrightarrow> hdr_rewrite cur ?m1 x = m x"
    using memmove_outside [OF mv] by (auto simp: hdr_rewrite_outside)
  have b: "\<forall>i. 0 \<le> i \<and> i < 60 \<longrightarrow> hdr_rewrite cur ?m1 (cur + 1518 + i) = m (cur + i)"
    using memmove_inside [OF mv] by (auto simp: hdr_rewrite_outside)
  from r a b hdr_rewrite_fields show ?thesis by blast
qed

lemma gso_last_fields:
  "hdr_len (gso_last segs len cur m) cur = len - 1458 * (segs - 1) + 42"
  "udp_len (gso_last segs len cur m) cur = ucast (len - 1458 * (segs - 1) + 42 - 34)"
  "ip_total_len (gso_last segs len cur m) cur = ucast (len - 1458 * (segs - 1) + 42 - 14)"
  "hdr_completion_data (gso_last segs len cur m) cur = hdr_completion_data m cur"
  by (simp_all add: gso_last_def Let_def field_defs load_store_other)

lemma gso_last_outside: "x < cur \<or> cur + 60 \<le> x \<Longrightarrow> gso_last segs len cur m x = m x"
  by (auto simp: gso_last_def Let_def hdr_payload_def store_be16_outside store32_outside)

lemma gso_hdrs_result:
  assumes "n = Suc (unat (segs - 1)) - j" and "in_region r cur (1518 * n + 60)"
  shows "\<exists>m'. gso_hdrs r segs j cur m out =
            Inr (cur + 1518 * int n, m', out @ map (\<lambda>k. cur + 1518 * int k) [0..<n])
         \<and> (\<forall>x. x < cur \<or> cur + 1518 * int n + 60 \<le> x \<longrightarrow> m' x = m x)
         \<and> same_block m' (cur + 1518 * int n) m cur
         \<and> (\<forall>k. k < n \<longrightarrow> seg_fields m' (cur + 1518 * int k) = (1500, 0, 1466, 1486))"
  using assms
proof (induction n arbitrary: j cur m out)
  case 0
  then have "\<not> j \<le> unat (segs - 1)" by simp
  then have "gso_hdrs r segs j cur m out = Inr (cur, m, out)"
    by (simp add: gso_hdrs.simps [of r segs j cur m out])
  then show ?case by (simp add: same_block_def)
next
  case (Suc n)
  then have le: "j \<le> unat (segs - 1)" and n: "n = Suc (unat (segs - 1)) - (j + 1)" by simp_all
  have reg1: "in_region r cur 1578" and reg2: "in_region r (cur + 1518) (1518 * n + 60)"
    using Suc.prems(2) by (simp_all add: in_region_def)
  from gso_hdr_step_ok [OF reg1, of m] obtain m1 where
    st: "gso_hdr_step r cur m = Inr m1" and
    out1: "\<And>x. x < cur \<or> cur + 1578 \<le> x \<Longrightarrow> m1 x = m x" and
    cp1: "\<And>i. 0 \<le> i \<Longrightarrow> i < 60 \<Longrightarrow> m1 (cur + 1518 + i) = m (cur + i)" and
    f1: "seg_fields m1 cur = (1500, 0, 1466, 1486)"
    by blast
  have step: "gso_hdrs r segs j cur m out = gso_hdrs r segs (j + 1) (cur + 1518) m1 (out @ [cur])"
    using le st by (simp add: gso_hdrs.simps [of r segs j cur m out])
  from Suc.IH [OF n reg2, of m1 "out @ [cur]"] obtain m' where
    r: "gso_hdrs r segs (j + 1) (cur + 1518) m1 (out @ [cur]) =
         Inr (cur + 1518 + 1518 * int n, m', (out @ [cur]) @ map (\<lambda>k. cur + 1518 + 1518 * int k) [0..<n])"
    and outside: "\<And>x. x < cur + 1518 \<or> cur + 1518 + 1518 * int n + 60 \<le> x \<Longrightarrow> m' x = m1 x"
    and blk: "same_block m' (cur + 1518 + 1518 * int n) m1 (cur + 1518)"
    and flds: "\<And>k. k < n \<Longrightarrow> seg_fields m' (cur + 1518 + 1518 * int k) = (1500, 0, 1466, 1486)"
    by blast
  have a1: "cur + 1518 + 1518 * int n = cur + 1518 * int (Suc n)" by simp
  have a2: "(out @ [cur]) @ map (\<lambda>k. cur + 1518 + 1518 * int k) [0..<n]
             = out @ map (\<lambda>k. cur + 1518 * int k) [0..<Suc n]"
    by (simp add: map_upt_Suc del: upt_Suc)
  have b: "\<forall>x. x < cur \<or> cur + 1518 * int (Suc n) + 60 \<le> x \<longrightarrow> m' x = m x"
  proof (intro allI impI)
    fix x assume x: "x < cur \<or> cur + 1518 * int (Suc n) + 60 \<le> x"
    then have "m' x = m1 x" by (intro outside) auto
    also have "m1 x = m x" using x by (intro out1) auto
    finally show "m' x = m x" .
  qed
  have c: "same_block m' (cur + 1518 * int (Suc n)) m cur"
    using blk cp1 unfolding a1 same_block_def by simp
  have d: "\<forall>k. k < Suc n \<longrightarrow> seg_fields m' (cur + 1518 * int k) = (1500, 0, 1466, 1486)"
  proof (intro allI impI)
    fix k assume k: "k < Suc n"
    show "seg_fields m' (cur + 1518 * int k) = (1500, 0, 1466, 1486)"
    proof (cases k)
      case 0
      have "same_block m' cur m1 cur" by (rule same_block_below) (simp add: outside)
      then have "seg_fields m' cur = seg_fields m1 cur" by (rule same_block_seg_fields)
      with 0 f1 show ?thesis by simp
    next
      case (Suc k')
      with k flds [of k'] show ?thesis by (simp add: algebra_simps)
    qed
  qed
  from r b c d show ?case unfolding step a1 a2 by blast
qed

lemma unat_pred: "(w :: 32 word) \<noteq> 0 \<Longrightarrow> Suc (unat (w - 1)) = unat w"
  by (simp add: unat_minus_one unat_gt_0 [symmetric] del: unat_gt_0)

lemma unat_sub_of_nat:
  fixes w :: "32 word"
  assumes "j \<le> unat w"
  shows "unat (w - of_nat j) = unat w - j"
proof -
  have "unat w < 2 ^ 32" using unsigned_less [of w] by simp
  with assms have "j < 2 ^ 32" by linarith
  then have uj: "unat (of_nat j :: 32 word) = j" by (simp add: unat_of_nat)
  with assms have "(of_nat j :: 32 word) \<le> w" by (simp add: word_le_nat_alt)
  then show ?thesis using uj by (simp add: unat_sub)
qed

lemma uint_times_60:
  fixes w :: "32 word"
  assumes "60 * unat w < 2 ^ 32"
  shows "uint (w * 60) = 60 * int (unat w)"
proof -
  have "unat w * unat (60 :: 32 word) < 2 ^ LENGTH(32)" using assms by simp
  then have "unat (w * 60) = unat w * unat (60 :: 32 word)"
    by (simp only: unat_mult_lem [THEN iffD1])
  then have "int (unat (w * 60)) = 60 * int (unat w)" by simp
  moreover have "uint (w * 60) = int (unat (w * 60))" by (rule uint_nat)
  ultimately show ?thesis by (simp only:)
qed

text \<open>
  The first loop from step \<open>j\<close> on, when every move stays inside the region: the
  lowest byte read is the final value of \<open>curr\<close>, and the highest byte written is the
  end of the destination of the move at step \<open>j\<close>.
\<close>
lemma gso_move_result:
  assumes n: "n = Suc (unat (segs - 1)) - j" and j1: "1 \<le> j" and nz: "segs \<noteq> 0"
    and nw: "60 * unat segs < 2 ^ 32"
    and lo: "region_base r \<le> cur - 1458 * int n"
    and hi: "cur + 60 * int (unat segs - j) + int sz \<le> region_base r + int (region_len r)"
    and sz: "sz = (if j = 1 then unat (len - 1458 * (segs - 1)) else 1458)"
  shows "\<exists>m'. gso_move r segs len j cur m = Inr (cur - 1458 * int n, m')
         \<and> (\<forall>x. x < cur - 1458 * int n \<or> cur + 60 * int (unat segs - j) + int sz \<le> x \<longrightarrow> m' x = m x)"
  using n j1 lo hi sz
proof (induction n arbitrary: j cur m sz)
  case 0
  then have "\<not> j \<le> unat (segs - 1)" by simp
  then show ?case by (simp add: gso_move.simps [of r segs len j cur m])
next
  case (Suc n)
  then have le: "j \<le> unat (segs - 1)" and n': "n = Suc (unat (segs - 1)) - (j + 1)" by simp_all
  have S: "Suc (unat (segs - 1)) = unat segs" by (rule unat_pred [OF nz])
  from le S have jS: "j < unat segs" by linarith
  have d: "uint ((segs - of_nat j) * 60) = 60 * int (unat segs - j)"
  proof -
    have u: "unat (segs - of_nat j) = unat segs - j" using jS by (intro unat_sub_of_nat) simp
    have "60 * unat (segs - of_nat j) < 2 ^ 32" unfolding u using nw by linarith
    from uint_times_60 [OF this] show ?thesis unfolding u .
  qed
  let ?dst = "cur + 60 * int (unat segs - j)"
  have szeq: "unat (if j = 1 then len - 1458 * (segs - 1) else 1458) = sz"
    using Suc.prems(5) by simp
  have reg: "in_region r ?dst sz" "in_region r cur sz"
    using Suc.prems(3,4) by (simp_all add: in_region_def)
  then have mv: "memmove r m ?dst cur sz = Inr (store_bytes m ?dst (load_bytes m cur sz))"
    by (rule memmove_ok)
  let ?m1 = "store_bytes m ?dst (load_bytes m cur sz)"
  have step: "gso_move r segs len j cur m = gso_move r segs len (j + 1) (cur - 1458) ?m1"
    by (subst gso_move.simps) (simp only: le if_True d szeq mv sum.case)
  have j1': "1 \<le> j + 1" by simp
  have lo': "region_base r \<le> cur - 1458 - 1458 * int n" using Suc.prems(3) by simp
  have sub: "int (unat segs - (j + 1)) = int (unat segs - j) - 1" using jS by simp
  have hi': "cur - 1458 + 60 * int (unat segs - (j + 1)) + int 1458
               \<le> region_base r + int (region_len r)"
    using Suc.prems(4) unfolding sub by simp
  have sz': "1458 = (if j + 1 = 1 then unat (len - 1458 * (segs - 1)) else 1458)"
    using Suc.prems(2) by simp
  from Suc.IH [OF n' j1' lo' hi' sz', of ?m1] obtain m' where
    r: "gso_move r segs len (j + 1) (cur - 1458) ?m1 = Inr (cur - 1458 - 1458 * int n, m')"
    and fr: "\<And>x. x < cur - 1458 - 1458 * int n \<or>
                 cur - 1458 + 60 * int (unat segs - (j + 1)) + int 1458 \<le> x \<Longrightarrow> m' x = ?m1 x"
    by blast
  have "\<And>x. x < cur - 1458 * int (Suc n) \<or> ?dst + int sz \<le> x \<Longrightarrow> m' x = m x"
  proof -
    fix x assume x: "x < cur - 1458 * int (Suc n) \<or> ?dst + int sz \<le> x"
    then have "m' x = ?m1 x" unfolding sub by (intro fr) auto
    also have "\<dots> = m x" using x by (intro memmove_outside [OF mv]) auto
    finally show "m' x = m x" .
  qed
  with r show ?case unfolding step by (simp add: algebra_simps)
qed

text \<open>
  The bytes from the descriptor on that the segmenter reads or writes: 1518 for every
  segment but the last, and the 60 bytes of header block and the rest of the payload for
  the last, which is 60 for every segment and the payload.
\<close>
definition gso_area :: "shm \<Rightarrow> addr \<Rightarrow> nat" where
  "gso_area m h = 60 * unat (gso_segs m h) + unat (gso_len m h)"

text \<open>The length written to the last segment (line 340).\<close>
definition gso_last_len :: "shm \<Rightarrow> addr \<Rightarrow> 32 word" where
  "gso_last_len m h = gso_len m h - 1458 * (gso_segs m h - 1) + 42"

lemma gso_nowrap:
  fixes segs len :: "32 word"
  assumes nz: "segs \<noteq> 0" and fit: "1458 * (unat segs - 1) \<le> unat len"
  shows "uint (1458 * (segs - 1)) = 1458 * int (unat (segs - 1))"
    "unat (len - 1458 * (segs - 1)) = unat len - 1458 * unat (segs - 1)"
    "60 * unat segs < 2 ^ 32"
proof -
  let ?s = "segs - 1"
  have S: "Suc (unat ?s) = unat segs" by (rule unat_pred [OF nz])
  then have s1: "unat ?s = unat segs - 1" by simp
  have l: "unat len < 2 ^ 32" using unsigned_less [of len] by simp
  with fit s1 have lt: "1458 * unat ?s < 2 ^ 32" by simp
  then have "unat (1458 :: 32 word) * unat ?s < 2 ^ LENGTH(32)" by simp
  then have eq: "unat (1458 * ?s) = unat (1458 :: 32 word) * unat ?s"
    by (simp only: unat_mult_lem [THEN iffD1])
  then have eq': "unat (1458 * ?s) = 1458 * unat ?s" by simp
  have "uint (1458 * ?s) = int (unat (1458 * ?s))" by (rule uint_nat)
  then show "uint (1458 * ?s) = 1458 * int (unat ?s)" by (simp only: eq' of_nat_mult of_nat_numeral)
  have "1458 * ?s \<le> len" using fit s1 eq' by (simp add: word_le_nat_alt)
  from unat_sub [OF this] show "unat (len - 1458 * ?s) = unat len - 1458 * unat ?s"
    unfolding eq' .
  from lt S [symmetric] show "60 * unat segs < 2 ^ 32" by simp
qed

lemma tx_gso_result:
  assumes nz: "gso_segs m h \<noteq> 0"
    and fit: "1458 * (unat (gso_segs m h) - 1) \<le> unat (gso_len m h)"
    and reg: "in_region r h (gso_area m h)"
  shows "\<exists>m'. tx_gso r m h =
            Inr (m', map (\<lambda>k. h + 1518 * int k) [0..<unat (gso_segs m h)])
         \<and> (\<forall>k. Suc k < unat (gso_segs m h) \<longrightarrow>
               seg_fields m' (h + 1518 * int k) = (1500, 0, 1466, 1486))
         \<and> seg_fields m' (h + 1518 * int (unat (gso_segs m h - 1))) =
               (gso_last_len m h, hdr_completion_data m h,
                ucast (gso_last_len m h - 34), ucast (gso_last_len m h - 14))
         \<and> (\<forall>x. x < h \<or> h + int (gso_area m h) \<le> x \<longrightarrow> m' x = m x)"
proof -
  let ?segs = "gso_segs m h" and ?len = "gso_len m h"
  let ?n = "unat (?segs - 1)"
  let ?cur0 = "hdr_payload h + 42 + uint (1458 * (?segs - 1))"
  let ?R = "unat (?len - 1458 * (?segs - 1))"
  note nw = gso_nowrap [OF nz fit]
  have sn: "unat ?segs = Suc ?n" using unat_pred [OF nz] by simp
  have fit': "1458 * ?n \<le> unat ?len" using fit sn by simp
  have R: "?R = unat ?len - 1458 * ?n" by (rule nw(2))
  have cur0: "?cur0 = h + 60 + 1458 * int ?n" unfolding nw(1) hdr_payload_def by simp
  have base: "region_base r \<le> h" and top: "h + int (gso_area m h) \<le> region_base r + int (region_len r)"
    using reg by (simp_all add: in_region_def)
  have area: "int (gso_area m h) = 60 + 60 * int ?n + int (unat ?len)"
    by (simp add: gso_area_def sn)
  have "58 \<le> gso_area m h" by (simp add: gso_area_def sn)
  then have "(58 :: int) \<le> int (gso_area m h)" by linarith
  with base top have udp: "in_region r (hdr_payload h + UDP_OFFSET + 4) 2"
    by (simp add: in_region_def hdr_payload_def UDP_OFFSET_def)
  have lo: "region_base r \<le> ?cur0 - 1458 * int ?n" using base unfolding cur0 by simp
  have Rint: "int ?R = int (unat ?len) - 1458 * int ?n" using fit' unfolding R by simp
  have hi_eq: "?cur0 + 60 * int (unat ?segs - 1) + int ?R = h + int (gso_area m h)"
    unfolding cur0 area Rint sn by simp
  have hi: "?cur0 + 60 * int (unat ?segs - 1) + int ?R \<le> region_base r + int (region_len r)"
    unfolding hi_eq by (rule top)
  have "\<exists>m'. gso_move r ?segs ?len 1 ?cur0 m = Inr (?cur0 - 1458 * int ?n, m')
         \<and> (\<forall>x. x < ?cur0 - 1458 * int ?n \<or> ?cur0 + 60 * int (unat ?segs - 1) + int ?R \<le> x
                \<longrightarrow> m' x = m x)"
    by (rule gso_move_result [OF _ _ nz nw(3) lo hi]) simp_all
  then obtain m1 where
    mv: "gso_move r ?segs ?len 1 ?cur0 m = Inr (?cur0 - 1458 * int ?n, m1)" and
    mvf: "\<And>x. x < ?cur0 - 1458 * int ?n \<or> h + int (gso_area m h) \<le> x \<Longrightarrow> m1 x = m x"
    unfolding hi_eq by auto
  have c0: "?cur0 - 1458 * int ?n - 60 = h" unfolding cur0 by simp
  have c0': "?cur0 - 1458 * int ?n = h + 60" unfolding cur0 by simp
  have fiti: "1458 * int ?n \<le> int (unat ?len)" using fit' by linarith
  have hreg: "in_region r h (1518 * ?n + 60)"
    using base top fiti unfolding area by (simp add: in_region_def)
  from gso_hdrs_result [OF _ hreg, of ?segs 1 m1 "[]"] obtain m2 where
    hd: "gso_hdrs r ?segs 1 h m1 [] = Inr (h + 1518 * int ?n, m2, map (\<lambda>k. h + 1518 * int k) [0..<?n])" and
    hdf: "\<And>x. x < h \<or> h + 1518 * int ?n + 60 \<le> x \<Longrightarrow> m2 x = m1 x" and
    blk: "same_block m2 (h + 1518 * int ?n) m1 h" and
    flds: "\<And>k. k < ?n \<Longrightarrow> seg_fields m2 (h + 1518 * int k) = (1500, 0, 1466, 1486)"
    by auto
  let ?c2 = "h + 1518 * int ?n"
  let ?m' = "gso_last ?segs ?len ?c2 m2"
  have lst: "map (\<lambda>k. h + 1518 * int k) [0..<?n] @ [?c2] = map (\<lambda>k. h + 1518 * int k) [0..<unat ?segs]"
    by (simp add: sn)
  have res: "tx_gso r m h = Inr (?m', map (\<lambda>k. h + 1518 * int k) [0..<unat ?segs])"
    by (simp only: tx_gso_def udp Let_def nz if_False not_True_eq_False mv sum.case prod.case c0 hd lst)
  have f1: "\<forall>k. Suc k < unat ?segs \<longrightarrow> seg_fields ?m' (h + 1518 * int k) = (1500, 0, 1466, 1486)"
  proof (intro allI impI)
    fix k assume "Suc k < unat ?segs"
    then have k: "k < ?n" using sn by simp
    have "same_block ?m' (h + 1518 * int k) m2 (h + 1518 * int k)"
    proof (rule same_block_below)
      fix x assume "x < h + 1518 * int k + 60"
      moreover from k have "int k < int ?n" by (simp only: of_nat_less_iff)
      ultimately have "x < ?c2" by linarith
      then show "?m' x = m2 x" by (intro gso_last_outside) simp
    qed
    then show "seg_fields ?m' (h + 1518 * int k) = (1500, 0, 1466, 1486)"
      using flds [OF k] by (simp add: same_block_seg_fields)
  qed
  have mvf': "\<And>x. x < h + 60 \<or> h + int (gso_area m h) \<le> x \<Longrightarrow> m1 x = m x"
    using mvf unfolding c0' .
  have "same_block m1 h m h"
    by (rule same_block_below) (simp add: mvf')
  then have "hdr_completion_data m1 h = hdr_completion_data m h"
    by (simp add: same_block_fields)
  with blk have tok: "hdr_completion_data m2 ?c2 = hdr_completion_data m h"
    by (simp add: same_block_fields)
  have f2: "seg_fields ?m' ?c2 =
      (gso_last_len m h, hdr_completion_data m h,
       ucast (gso_last_len m h - 34), ucast (gso_last_len m h - 14))"
    by (simp only: seg_fields_def gso_last_fields tok gso_last_len_def)
  have f3: "\<forall>x. x < h \<or> h + int (gso_area m h) \<le> x \<longrightarrow> ?m' x = m x"
  proof (intro allI impI)
    fix x assume x: "x < h \<or> h + int (gso_area m h) \<le> x"
    have le: "h + 1518 * int ?n + 60 \<le> h + int (gso_area m h)"
      using fiti unfolding area by simp
    from x le have o: "x < ?c2 \<or> ?c2 + 60 \<le> x" by arith
    then have "?m' x = m2 x" by (rule gso_last_outside)
    also from x le have "x < h \<or> ?c2 + 60 \<le> x" by arith
    then have "m2 x = m1 x" by (rule hdf)
    also from x have "m1 x = m x" by (intro mvf') auto
    finally show "?m' x = m x" .
  qed
  from res f1 f2 f3 show ?thesis by blast
qed

subsection \<open>Example descriptors\<close>

text \<open>
  A descriptor at address 0 with the given token, total length and UDP length field;
  every other byte is zero.
\<close>
definition packet_mem :: "64 word \<Rightarrow> 32 word \<Rightarrow> 16 word \<Rightarrow> shm" where
  "packet_mem tok len ulen = store_be16 (store32 (store64 (\<lambda>_. 0) 0 tok) 12 len) 56 ulen"

lemma packet_mem_fields:
  "hdr_len (packet_mem tok len ulen) 0 = len"
  "hdr_completion_data (packet_mem tok len ulen) 0 = tok"
  "gso_len (packet_mem tok len ulen) 0 = ucast ulen - 8"
  by (simp_all add: packet_mem_def field_defs gso_len_def UDP_OFFSET_def load_store_other)

lemma packet_mem_segs:
  "gso_segs (packet_mem tok len ulen) 0 =
     ucast (((ucast len :: 64 word) + 18 - ucast (ucast ulen - 8 :: 32 word)) div 60)"
  by (simp add: gso_segs_def packet_mem_fields sizeof_tx_net_hdr_def)

lemma segs_4162: "gso_segs (packet_mem 0xAA 4162 4008) 0 = 3"
  by (simp add: packet_mem_segs)

lemma segs_4042: "gso_segs (packet_mem 0xAA 4042 4008) 0 = 1"
  by (simp add: packet_mem_segs)

lemma segs_1560: "gso_segs (packet_mem 0xAA 1560 8) 0 = 26"
  by (simp add: packet_mem_segs)

text \<open>A region of 64 KiB at address 0.\<close>
definition region64k :: proc where
  "region64k = proc0\<lparr>region_len := 65536\<rparr>"

lemma in_region64k: "in_region region64k a n \<longleftrightarrow> 0 \<le> a \<and> a + int n \<le> 65536"
  by (simp add: in_region_def region64k_def proc0_def)

text \<open>What a test reads off the result of the segmenter.\<close>
definition seg_lens :: "fault + (shm \<times> addr list) \<Rightarrow> fault + 32 word list" where
  "seg_lens r = (case r of Inl e \<Rightarrow> Inl e | Inr (m, out) \<Rightarrow> Inr (map (hdr_len m) out))"

lemma tx_segment_shape:
  assumes "MTU_SIZE < hdr_len m h" and "gso_segs m h \<noteq> 0"
    and "1458 * (unat (gso_segs m h) - 1) \<le> unat (gso_len m h)"
    and "in_region r h (gso_area m h)"
  shows "\<exists>m'. tx_segment r m h =
            Inr (m', map (\<lambda>k. h + 1518 * int k) [0..<unat (gso_segs m h)])
         \<and> (\<forall>k. Suc k < unat (gso_segs m h) \<longrightarrow>
               seg_fields m' (h + 1518 * int k) = (1500, 0, 1466, 1486))
         \<and> seg_fields m' (h + 1518 * int (unat (gso_segs m h - 1))) =
               (gso_last_len m h, hdr_completion_data m h,
                ucast (gso_last_len m h - 34), ucast (gso_last_len m h - 14))
         \<and> (\<forall>x. x < h \<or> h + int (gso_area m h) \<le> x \<longrightarrow> m' x = m x)"
proof -
  from assms(1) have "tx_segment r m h = tx_gso r m h"
    by (simp add: tx_segment_def not_le [symmetric])
  with tx_gso_result [OF assms(2,3,4)] show ?thesis by simp
qed

lemma map3: "length xs = 3 \<Longrightarrow> map f xs = [f (xs ! 0), f (xs ! 1), f (xs ! 2)]"
  by (auto simp: length_Suc_conv numeral_3_eq_3)

lemma unat_ucast_up: "unat (ucast (w :: 32 word) :: 64 word) = unat w"
proof -
  have "unat w < 2 ^ 32" using unsigned_less [of w] by simp
  then have "unat w < 2 ^ 64" by simp
  then show ?thesis by (simp add: unsigned_ucast_eq take_bit_nat_eq_self)
qed

lemma unat_ucast_down: "unat (x :: 64 word) < 2 ^ 32 \<Longrightarrow> unat (ucast x :: 32 word) = unat x"
  by (simp add: unsigned_ucast_eq take_bit_nat_eq_self)

subsection \<open>Claims on the segmenter\<close>

text \<open>
  C3, as stated, fails on its own example. For a descriptor of total length 42 + 4000
  whose UDP length field gives a payload of 4000 bytes, the code computes
  \<open>segs = (4042 + 18 - 4000) / 60 = 1\<close> and emits one segment of length 4042, not
  three segments of lengths 1500, 1500 and 1126.
\<close>
theorem tx_segment_spec_example:
  "hdr_len (packet_mem 0xAA 4042 4008) 0 = 42 + 4000 \<and>
   gso_len (packet_mem 0xAA 4042 4008) 0 = 4000 \<and>
   seg_lens (tx_segment region64k (packet_mem 0xAA 4042 4008) 0) = Inr [4042]"
proof -
  let ?m = "packet_mem 0xAA 4042 4008"
  have g: "MTU_SIZE < hdr_len ?m 0" by (simp add: packet_mem_fields MTU_SIZE_def)
  have nz: "gso_segs ?m 0 \<noteq> 0" by (simp add: segs_4042)
  have fit: "1458 * (unat (gso_segs ?m 0) - 1) \<le> unat (gso_len ?m 0)"
    by (simp add: segs_4042)
  have reg: "in_region region64k 0 (gso_area ?m 0)"
    by (simp add: in_region64k gso_area_def segs_4042 packet_mem_fields)
  from tx_segment_shape [OF g nz fit reg] obtain m' where
    r: "tx_segment region64k ?m 0 = Inr (m', [0])" and
    f: "seg_fields m' 0 = (gso_last_len ?m 0, hdr_completion_data ?m 0,
                ucast (gso_last_len ?m 0 - 34), ucast (gso_last_len ?m 0 - 14))"
    by (auto simp: segs_4042)
  have "gso_last_len ?m 0 = 4042" by (simp add: gso_last_len_def segs_4042 packet_mem_fields)
  with f have "hdr_len m' 0 = 4042" by (simp add: seg_fields_def)
  with r show ?thesis by (simp add: seg_lens_def packet_mem_fields)
qed

text \<open>
  C3, amended. The number of segments is not derived from the payload alone: for an
  oversized descriptor the segmenter emits \<open>segs = (total_len + 18 - payload_len) div 60\<close>
  segments (\<open>gso_segs\<close>), so it expects the runtime to have counted 60 bytes of room
  for every further header in the total length. This holds when \<open>segs\<close> is not zero,
  the payload fills all segments but the last (\<open>1458 * (segs - 1) \<le> payload_len\<close>, so
  that the rest \<open>payload_len - 1458 * (segs - 1)\<close> does not wrap around) and the
  \<open>60 * segs + payload_len\<close> bytes that the segmenter works on lie inside the region of
  the process. Each of the first \<open>segs - 1\<close> segments then has length 1500 and the last
  has length \<open>42 + payload_len - 1458 * (segs - 1)\<close>; in every segment the IP
  total-length field is the length less 14 and the UDP length field is the length less
  34.
\<close>
theorem tx_segment_lengths:
  assumes "MTU_SIZE < hdr_len m h" and "gso_segs m h \<noteq> 0"
    and "1458 * (unat (gso_segs m h) - 1) \<le> unat (gso_len m h)"
    and "in_region r h (gso_area m h)"
  shows "\<exists>m' out. tx_segment r m h = Inr (m', out) \<and> length out = unat (gso_segs m h) \<and>
     (\<forall>k. k < length out \<longrightarrow>
        hdr_len m' (out ! k) = (if Suc k < length out then 1500 else gso_len m h - 1458 * (gso_segs m h - 1) + 42)
      \<and> ip_total_len m' (out ! k) = ucast (hdr_len m' (out ! k) - 14)
      \<and> udp_len m' (out ! k) = ucast (hdr_len m' (out ! k) - 34))"
proof -
  let ?n = "unat (gso_segs m h)"
  let ?out = "map (\<lambda>k. h + 1518 * int k) [0..<?n]"
  from tx_segment_shape [OF assms] obtain m' where
    r: "tx_segment r m h = Inr (m', ?out)" and
    f1: "\<And>k. Suc k < ?n \<Longrightarrow> seg_fields m' (h + 1518 * int k) = (1500, 0, 1466, 1486)" and
    f2: "seg_fields m' (h + 1518 * int (unat (gso_segs m h - 1))) =
               (gso_last_len m h, hdr_completion_data m h,
                ucast (gso_last_len m h - 34), ucast (gso_last_len m h - 14))"
    by blast
  have sn: "Suc (unat (gso_segs m h - 1)) = ?n" by (rule unat_pred [OF assms(2)])
  have "\<forall>k. k < length ?out \<longrightarrow>
        hdr_len m' (?out ! k) = (if Suc k < length ?out then 1500 else gso_len m h - 1458 * (gso_segs m h - 1) + 42)
      \<and> ip_total_len m' (?out ! k) = ucast (hdr_len m' (?out ! k) - 14)
      \<and> udp_len m' (?out ! k) = ucast (hdr_len m' (?out ! k) - 34)"
  proof (intro allI impI)
    fix k assume "k < length ?out"
    then have k: "k < ?n" by simp
    then have nth: "?out ! k = h + 1518 * int k" by simp
    show "hdr_len m' (?out ! k) = (if Suc k < length ?out then 1500 else gso_len m h - 1458 * (gso_segs m h - 1) + 42)
      \<and> ip_total_len m' (?out ! k) = ucast (hdr_len m' (?out ! k) - 14)
      \<and> udp_len m' (?out ! k) = ucast (hdr_len m' (?out ! k) - 34)"
    proof (cases "Suc k < ?n")
      case True
      from f1 [OF True] True show ?thesis unfolding nth by (simp add: seg_fields_def)
    next
      case False
      with k sn have "k = unat (gso_segs m h - 1)" by linarith
      with f2 False show ?thesis unfolding nth by (simp add: seg_fields_def gso_last_len_def)
    qed
  qed
  with r show ?thesis by (intro exI [of _ m'] exI [of _ ?out]) simp
qed

theorem tx_segment_lengths_witness:
  "MTU_SIZE < hdr_len (packet_mem 0xAA 4162 4008) 0 \<and>
   gso_segs (packet_mem 0xAA 4162 4008) 0 \<noteq> 0 \<and>
   1458 * (unat (gso_segs (packet_mem 0xAA 4162 4008) 0) - 1)
     \<le> unat (gso_len (packet_mem 0xAA 4162 4008) 0) \<and>
   in_region region64k 0 (gso_area (packet_mem 0xAA 4162 4008) 0) \<and>
   (\<exists>m' out. tx_segment region64k (packet_mem 0xAA 4162 4008) 0 = Inr (m', out) \<and> length out = 3 \<and>
      map (hdr_len m') out = [1500, 1500, 1126] \<and>
      map (udp_len m') out = [1466, 1466, 1092] \<and>
      map (ip_total_len m') out = [1486, 1486, 1112])"
proof -
  let ?m = "packet_mem 0xAA 4162 4008"
  have g: "MTU_SIZE < hdr_len ?m 0" by (simp add: packet_mem_fields MTU_SIZE_def)
  have nz: "gso_segs ?m 0 \<noteq> 0" by (simp add: segs_4162)
  have fit: "1458 * (unat (gso_segs ?m 0) - 1) \<le> unat (gso_len ?m 0)"
    by (simp add: segs_4162 packet_mem_fields)
  have reg: "in_region region64k 0 (gso_area ?m 0)"
    by (simp add: in_region64k gso_area_def segs_4162 packet_mem_fields)
  from tx_segment_lengths [OF g nz fit reg] obtain m' out where
    r: "tx_segment region64k ?m 0 = Inr (m', out)" and l: "length out = 3" and
    f: "\<And>k. k < 3 \<Longrightarrow>
        hdr_len m' (out ! k) = (if Suc k < 3 then 1500 else 1126)
      \<and> ip_total_len m' (out ! k) = ucast (hdr_len m' (out ! k) - 14)
      \<and> udp_len m' (out ! k) = ucast (hdr_len m' (out ! k) - 34)"
    by (auto simp: segs_4162 packet_mem_fields)
  from f [of 0] f [of 1] f [of 2] l
  have "map (hdr_len m') out = [1500, 1500, 1126] \<and>
      map (udp_len m') out = [1466, 1466, 1092] \<and>
      map (ip_total_len m') out = [1486, 1486, 1112]"
    by (simp add: map3)
  with g nz fit reg r l show ?thesis by (intro conjI exI [of _ m'] exI [of _ out]) simp_all
qed

subsection \<open>Claims on the egress poller\<close>

text \<open>A slot of the egress ring that passes both checks of \<open>tx_drain_queue\<close>.\<close>
definition slot_ok :: "proc \<Rightarrow> 64 word \<times> 64 word \<Rightarrow> bool" where
  "slot_ok pr slot \<longleftrightarrow>
     fst slot = TXPKT_NET_XMIT \<and> shmptr_to_ptr pr (snd slot) sizeof_tx_net_hdr \<noteq> None"

lemma tx_drain_loop_bad:
  assumes "msgs (txpktq (thread_tab s t)) = good @ bad # rest"
    and "list_all (slot_ok (procs s (t_p (thread_tab s t)))) good"
    and "\<not> slot_ok (procs s (t_p (thread_tab s t))) bad"
    and "i + int (length good) < n"
  shows "tx_drain_loop t n i hdrs s = Inl Bug"
  using assms
proof (induction good arbitrary: s i hdrs)
  case Nil
  obtain cmd payload where b: "bad = (cmd, payload)" by (cases bad)
  from Nil have "i < n" by simp
  moreover from Nil b have "lrpc_recv (txpktq (thread_tab s t)) =
      Some ((cmd, payload), (txpktq (thread_tab s t))\<lparr>msgs := rest\<rparr>)"
    by (simp add: lrpc_recv_def)
  ultimately show ?case using Nil(3) b
    by (auto simp: tx_drain_loop.simps [of t n i hdrs s] BUG_ON_def slot_ok_def Let_def)
next
  case (Cons g good)
  obtain cmd payload where g: "g = (cmd, payload)" by (cases g)
  let ?q = "(txpktq (thread_tab s t))\<lparr>msgs := good @ bad # rest\<rparr>"
  let ?s' = "s\<lparr>thread_tab := (thread_tab s)(t := (thread_tab s t)\<lparr>txpktq := ?q\<rparr>)\<rparr>"
  from Cons.prems have i: "i < n" by simp
  from Cons.prems g have rc: "lrpc_recv (txpktq (thread_tab s t)) = Some ((cmd, payload), ?q)"
    by (simp add: lrpc_recv_def)
  from Cons.prems(2) g obtain h where
    ok: "cmd = TXPKT_NET_XMIT"
    "shmptr_to_ptr (procs s (t_p (thread_tab s t))) payload sizeof_tx_net_hdr = Some h"
    by (auto simp: slot_ok_def)
  have step: "tx_drain_loop t n i hdrs s = tx_drain_loop t n (i + 1) (hdrs @ [h]) ?s'"
    using i rc ok by (simp add: tx_drain_loop.simps [of t n i hdrs s] BUG_ON_def Let_def)
  have "tx_drain_loop t n (i + 1) (hdrs @ [h]) ?s' = Inl Bug"
    using Cons.prems by (intro Cons.IH) simp_all
  with step show ?case by simp
qed

lemma tx_poll_fault:
  assumes "ts s \<noteq> []"
    and "tx_drain_queue (ts s ! (unat (pos s) mod length (ts s))) (sint (of_nat B - n_pkts s :: 32 word)) s = Inl e"
  shows "tx_poll B 0 [] 0 s = Inl e"
  using assms by (simp add: tx_poll.simps [of B 0 "[]" 0 s] Let_def)

text \<open>A runtime with one thread whose egress ring holds the given slots.\<close>
definition runtime_state :: "(64 word \<times> 64 word) list \<Rightarrow> shm \<Rightarrow> iokernel" where
  "runtime_state slots m = iokernel0\<lparr>
     procs := (\<lambda>_. proc0)(0 := proc0\<lparr>region_len := 65536, ref := 1, p_threads := [0]\<rparr>),
     thread_tab := (\<lambda>_. thread0)(0 := thread0\<lparr>active := True,
        rxq := \<lparr>msgs = [], chan_size = 8\<rparr>, txpktq := \<lparr>msgs = slots, chan_size = 8\<rparr>\<rparr>),
     mem := m, ts := [0], tx_mbuf_pool := [10, 11, 12, 13]\<rparr>"

lemmas runtime_defs = runtime_state_def iokernel0_def proc0_def thread0_def mbuf0_def

text \<open>
  C7, as stated, fails. A slot with a tag other than the transmit tag does not set the
  kill flag of the runtime and does not let the transmit thread go on: \<open>BUG_ON\<close>
  stops \<open>tx_drain_queue\<close>, and with it \<open>tx_burst\<close> and the I/O kernel.
\<close>
theorem tx_drain_queue_bad_tag_not_contained:
  "\<not> kill (procs (runtime_state [(7, 0x100)] (\<lambda>_. 0)) 0) \<and>
   tx_drain_queue 0 32 (runtime_state [(7, 0x100)] (\<lambda>_. 0)) = Inl Bug \<and>
   tx_burst 32 32 (runtime_state [(7, 0x100)] (\<lambda>_. 0)) = Inl Bug"
  by (simp add: runtime_defs tx_burst_def tx_burst_fill_def tx_poll.simps tx_drain_queue_def
      tx_drain_loop.simps lrpc_recv_def BUG_ON_def TXPKT_NET_XMIT_def Let_def)

text \<open>
  C7, amended. When a dequeued egress slot (after any number of good ones, within the
  \<open>n\<close> slots the call may take) carries a tag other than the transmit tag, or an
  offset that does not translate to a pointer inside the region of its process,
  \<open>tx_drain_queue\<close> stops at \<open>BUG_ON\<close>: it is fatal for the whole I/O kernel, the call
  of \<open>tx_burst\<close> that polls the thread does not return, and no kill flag is set.
\<close>
theorem tx_drain_queue_violation_stops_iokernel:
  assumes "msgs (txpktq (thread_tab s t)) = good @ bad # rest"
    and "list_all (slot_ok (procs s (t_p (thread_tab s t)))) good"
    and "\<not> slot_ok (procs s (t_p (thread_tab s t))) bad"
    and "int (length good) < n"
  shows "tx_drain_queue t n s = Inl Bug \<and>
         (ts s \<noteq> [] \<and> t = ts s ! (unat (pos s) mod length (ts s)) \<and>
          n = sint (of_nat B - n_pkts s :: 32 word) \<longrightarrow> tx_burst B k s = Inl Bug)"
proof -
  have a: "tx_drain_queue t n s = Inl Bug"
    unfolding tx_drain_queue_def using assms by (intro tx_drain_loop_bad) simp_all
  then have "ts s \<noteq> [] \<and> t = ts s ! (unat (pos s) mod length (ts s)) \<and>
          n = sint (of_nat B - n_pkts s :: 32 word) \<longrightarrow> tx_burst B k s = Inl Bug"
    by (auto simp: tx_burst_def tx_burst_fill_def dest!: tx_poll_fault)
  with a show ?thesis by simp
qed

theorem tx_drain_queue_violation_stops_iokernel_witness:
  "msgs (txpktq (thread_tab (runtime_state [(0, 0x100), (0, 0xFFFFFF)] (\<lambda>_. 0)) 0)) =
     [(0, 0x100)] @ (0, 0xFFFFFF) # [] \<and>
   list_all (slot_ok (procs (runtime_state [(0, 0x100), (0, 0xFFFFFF)] (\<lambda>_. 0))
      (t_p (thread_tab (runtime_state [(0, 0x100), (0, 0xFFFFFF)] (\<lambda>_. 0)) 0)))) [(0, 0x100)] \<and>
   \<not> slot_ok (procs (runtime_state [(0, 0x100), (0, 0xFFFFFF)] (\<lambda>_. 0))
      (t_p (thread_tab (runtime_state [(0, 0x100), (0, 0xFFFFFF)] (\<lambda>_. 0)) 0))) (0, 0xFFFFFF) \<and>
   int (length [(0 :: 64 word, 0x100 :: 64 word)]) < 32 \<and>
   tx_drain_queue 0 32 (runtime_state [(0, 0x100), (0, 0xFFFFFF)] (\<lambda>_. 0)) = Inl Bug \<and>
   tx_burst 32 32 (runtime_state [(0, 0x100), (0, 0xFFFFFF)] (\<lambda>_. 0)) = Inl Bug"
proof -
  let ?s = "runtime_state [(0, 0x100), (0, 0xFFFFFF)] (\<lambda>_. 0)"
  have h1: "msgs (txpktq (thread_tab ?s 0)) = [(0, 0x100)] @ (0, 0xFFFFFF) # []"
    by (simp add: runtime_defs)
  have h2: "list_all (slot_ok (procs ?s (t_p (thread_tab ?s 0)))) [(0, 0x100)]"
    by (simp add: runtime_defs slot_ok_def TXPKT_NET_XMIT_def shmptr_to_ptr_def sizeof_tx_net_hdr_def)
  have h3: "\<not> slot_ok (procs ?s (t_p (thread_tab ?s 0))) (0, 0xFFFFFF)"
    by (simp add: runtime_defs slot_ok_def TXPKT_NET_XMIT_def shmptr_to_ptr_def sizeof_tx_net_hdr_def)
  have h4: "int (length [(0 :: 64 word, 0x100 :: 64 word)]) < 32" by simp
  have h5: "ts ?s \<noteq> [] \<and> 0 = ts ?s ! (unat (pos ?s) mod length (ts ?s)) \<and>
          32 = sint (of_nat 32 - n_pkts ?s :: 32 word)"
    by (simp add: runtime_defs)
  from tx_drain_queue_violation_stops_iokernel [OF h1 h2 h3 h4, of 32 32] h5 h1 h2 h3 h4 show ?thesis by blast
qed

subsection \<open>Lemmas on the transmit burst\<close>

lemma tx_drain_queue_frame:
  assumes "tx_drain_queue t n s = Inr (hs, s')"
  shows "pos s' = pos s" "n_pkts s' = n_pkts s" "n_bufs s' = n_bufs s" "bufs s' = bufs s"
    "mem s' = mem s" "tx_mbuf_pool s' = tx_mbuf_pool s" "nic_txq s' = nic_txq s"
    "procs s' = procs s" "mbuf_tab s' = mbuf_tab s"
  using tx_drain_loop_ts [OF assms [unfolded tx_drain_queue_def]] by simp_all

lemma tx_drain_loop_length:
  "tx_drain_loop t n i hdrs s = Inr (hs, s') \<Longrightarrow>
     \<exists>new. hs = hdrs @ new \<and> int (length new) \<le> max 0 (n - i)
       \<and> (\<forall>u. t_p (thread_tab s' u) = t_p (thread_tab s u))"
proof (induction t n i hdrs s rule: tx_drain_loop.induct)
  case (1 t n i hdrs s)
  show ?case
  proof (cases "i < n")
    case False
    with "1.prems" show ?thesis by (simp add: tx_drain_loop.simps [of t n i hdrs s])
  next
    case True
    show ?thesis
    proof (cases "lrpc_recv (txpktq (thread_tab s t))")
      case None
      with True "1.prems" show ?thesis
        by (auto simp: tx_drain_loop.simps [of t n i hdrs s] unpoll_thread_def split: if_splits)
    next
      case (Some a)
      obtain cmd payload q where a: "a = ((cmd, payload), q)" by (metis surj_pair)
      let ?s' = "s\<lparr>thread_tab := (thread_tab s)(t := (thread_tab s t)\<lparr>txpktq := q\<rparr>)\<rparr>"
      from True Some a "1.prems" obtain h where
        c: "\<not> cmd \<noteq> TXPKT_NET_XMIT" and
        h: "shmptr_to_ptr (procs ?s' (t_p (thread_tab ?s' t))) payload sizeof_tx_net_hdr = Some h" and
        r: "tx_drain_loop t n (i + 1) (hdrs @ [h]) ?s' = Inr (hs, s')"
        by (auto simp: tx_drain_loop.simps [of t n i hdrs s] BUG_ON_def Let_def
            split: if_splits option.splits)
      from "1.IH" [OF True Some a [symmetric] refl refl h r] obtain new where
        n: "hs = (hdrs @ [h]) @ new" "int (length new) \<le> max 0 (n - (i + 1))"
        "\<forall>u. t_p (thread_tab s' u) = t_p (thread_tab ?s' u)"
        by blast
      show ?thesis
        using n True by (intro exI [of _ "h # new"]) auto
    qed
  qed
qed

lemma sint_budget:
  fixes w :: "32 word"
  assumes "B < 2 ^ 31" and "unat w < 2 ^ 31"
  shows "sint (of_nat B - w) = int B - int (unat w)"
proof -
  let ?x = "int B - int (unat w)"
  from assms have b: "B < 2147483648" "unat w < 2147483648" by simp_all
  have "(of_nat B - w :: 32 word) = word_of_int ?x" by simp
  then have s: "sint (of_nat B - w) = (?x + 2147483648) mod 4294967296 - 2147483648"
    by (simp only: int_word_sint) simp
  have "(?x + 2147483648) mod 4294967296 = ?x + 2147483648"
    using b by (intro mod_pos_pos_trivial) linarith+
  with s show ?thesis by (simp only:)
qed

text \<open>
  How the count \<open>n_pkts\<close> moves in the polling loop when the burst size and the count
  are below \<open>2 ^ 31\<close>: it grows by the number of descriptors pulled, it does not
  pass the burst size, and nothing is pulled once it is above.
\<close>
lemma tx_poll_count:
  assumes "tx_poll B i pulled pt s = Inr (full, pulled', pt', s')"
    and "B < 2 ^ 31" and "unat (n_pkts s) < 2 ^ 31"
  shows "\<exists>new. pulled' = pulled @ new
           \<and> unat (n_pkts s') = unat (n_pkts s) + length new
           \<and> (unat (n_pkts s) \<le> B \<longrightarrow> unat (n_pkts s') \<le> B)
           \<and> (B < unat (n_pkts s) \<longrightarrow> new = [])"
  using assms
proof (induction B i pulled pt s rule: tx_poll.induct)
  case (1 B i pulled pt s)
  show ?case
  proof (cases "i < length (ts s)")
    case False
    with "1.prems" show ?thesis by (simp add: tx_poll.simps [of B i pulled pt s])
  next
    case True
    let ?t = "ts s ! (unat (pos s + of_nat i) mod length (ts s))"
    let ?n = "sint (of_nat B - n_pkts s :: 32 word)"
    let ?np = "unat (n_pkts s)"
    from True "1.prems" obtain hs s1 where dq: "tx_drain_queue ?t ?n s = Inr (hs, s1)"
      by (auto simp: tx_poll.simps [of B i pulled pt s] Let_def split: sum.splits)
    note fr = tx_drain_queue_frame [OF dq]
    have n: "?n = int B - int ?np" using "1.prems"(2,3) by (rule sint_budget)
    from tx_drain_loop_length [OF dq [unfolded tx_drain_queue_def]]
    have len: "int (length hs) \<le> max 0 (int B - int ?np)" unfolding n by auto
    let ?ret = "of_nat (length hs) :: 32 word"
    let ?s2 = "s1\<lparr>n_pkts := n_pkts s1 + ?ret\<rparr>"
    let ?p2 = "pulled @ map (\<lambda>h. (h, ?t)) hs"
    from "1.prems"(2) have B': "B < 2147483648" by simp
    with len have "length hs < 2147483648" by linarith
    then have lh: "length hs < 2 ^ 31" by simp
    then have ur: "unat ?ret = length hs" by (simp add: unat_of_nat)
    have sum: "?np + length hs < 2 ^ 32" using lh "1.prems"(3) by simp
    have u2: "unat (n_pkts ?s2) = ?np + length hs"
      using sum by (simp add: fr unat_word_ariths ur)
    have le2: "?np \<le> B \<longrightarrow> ?np + length hs \<le> B" using len by linarith
    have "B < ?np \<longrightarrow> length hs = 0" using len by linarith
    then have gt2: "B < ?np \<longrightarrow> hs = []" by simp
    show ?thesis
    proof (cases "of_nat B \<le> n_pkts ?s2")
      case full: True
      with True dq "1.prems" have "pulled' = ?p2" "s' = ?s2"
        by (simp_all add: tx_poll.simps [of B i pulled pt s] Let_def)
      with u2 le2 gt2 show ?thesis
        by (intro exI [of _ "map (\<lambda>h. (h, ?t)) hs"]) auto
    next
      case nf: False
      with True dq "1.prems" have r: "tx_poll B (i + 1) ?p2 (pt + ?ret) ?s2 = Inr (full, pulled', pt', s')"
        by (simp add: tx_poll.simps [of B i pulled pt s] Let_def)
      have uB: "unat (of_nat B :: 32 word) = B" using "1.prems"(2) by (simp add: unat_of_nat)
      have u2': "unat (n_pkts s1 + ?ret) = ?np + length hs" using u2 by simp
      from nf have lt: "?np + length hs < B" by (simp add: word_le_nat_alt uB u2')
      then have b2: "unat (n_pkts ?s2) < 2 ^ 31" using "1.prems"(2) unfolding u2 by linarith
      from "1.IH" [OF True refl refl dq refl refl refl nf r "1.prems"(2) b2] obtain new where
        new: "pulled' = ?p2 @ new" "unat (n_pkts s') = unat (n_pkts ?s2) + length new"
        "unat (n_pkts ?s2) \<le> B \<longrightarrow> unat (n_pkts s') \<le> B" "B < unat (n_pkts ?s2) \<longrightarrow> new = []"
        by blast
      show ?thesis
        using new lt unfolding u2 by (intro exI [of _ "map (\<lambda>h. (h, ?t)) hs @ new"]) auto
    qed
  qed
qed

lemma tx_poll_done:
  "\<not> i < length (ts s) \<Longrightarrow> tx_poll B i pulled pt s = Inr (False, pulled, pt, s)"
  by (simp add: tx_poll.simps [of B i pulled pt s])

lemma tx_poll_frame:
  "tx_poll B i pulled pt s = Inr (full, pulled', pt', s') \<Longrightarrow>
     (\<exists>new. pulled' = pulled @ new \<and> n_pkts s' = n_pkts s + of_nat (length new))
     \<and> pos s' = pos s \<and> n_bufs s' = n_bufs s \<and> bufs s' = bufs s
     \<and> (full \<longrightarrow> of_nat B \<le> n_pkts s')
     \<and> (\<not> full \<and> i < length (ts s) \<longrightarrow> n_pkts s' < of_nat B)"
proof (induction B i pulled pt s rule: tx_poll.induct)
  case (1 B i pulled pt s)
  show ?case
  proof (cases "i < length (ts s)")
    case False
    with "1.prems" show ?thesis by (simp add: tx_poll.simps [of B i pulled pt s])
  next
    case True
    let ?t = "ts s ! (unat (pos s + of_nat i) mod length (ts s))"
    let ?n = "sint (of_nat B - n_pkts s :: 32 word)"
    from True "1.prems" obtain hs s1 where dq: "tx_drain_queue ?t ?n s = Inr (hs, s1)"
      by (auto simp: tx_poll.simps [of B i pulled pt s] Let_def split: sum.splits)
    note fr = tx_drain_queue_frame [OF dq]
    let ?ret = "of_nat (length hs) :: 32 word"
    let ?s2 = "s1\<lparr>n_pkts := n_pkts s1 + ?ret\<rparr>"
    let ?p2 = "pulled @ map (\<lambda>h. (h, ?t)) hs"
    show ?thesis
    proof (cases "of_nat B \<le> n_pkts ?s2")
      case full: True
      with True dq "1.prems" have "full" "pulled' = ?p2" "s' = ?s2"
        by (simp_all add: tx_poll.simps [of B i pulled pt s] Let_def)
      with full fr show ?thesis by simp
    next
      case nf: False
      with True dq "1.prems" have r: "tx_poll B (i + 1) ?p2 (pt + ?ret) ?s2 = Inr (full, pulled', pt', s')"
        by (simp add: tx_poll.simps [of B i pulled pt s] Let_def)
      note IH = "1.IH" [OF True refl refl dq refl refl refl nf r]
      from IH obtain new where new: "pulled' = ?p2 @ new" "n_pkts s' = n_pkts ?s2 + of_nat (length new)"
        by blast
      have a: "\<exists>new. pulled' = pulled @ new \<and> n_pkts s' = n_pkts s + of_nat (length new)"
        using new fr by (intro exI [of _ "map (\<lambda>h. (h, ?t)) hs @ new"]) simp
      have b: "\<not> full \<longrightarrow> n_pkts s' < of_nat B"
      proof
        assume nfl: "\<not> full"
        show "n_pkts s' < of_nat B"
        proof (cases "i + 1 < length (ts ?s2)")
          case True
          with IH nfl show ?thesis by simp
        next
          case False
          then have "tx_poll B (i + 1) ?p2 (pt + ?ret) ?s2 = Inr (False, ?p2, pt + ?ret, ?s2)"
            by (rule tx_poll_done)
          with r have "s' = ?s2" by simp
          with nf show ?thesis by simp
        qed
      qed
      from IH a b fr show ?thesis by simp
    qed
  qed
qed

lemma tx_prepare_tx_mbuf_frame:
  "bufs (tx_prepare_tx_mbuf b h t s) = bufs s" "pos (tx_prepare_tx_mbuf b h t s) = pos s"
  "n_pkts (tx_prepare_tx_mbuf b h t s) = n_pkts s" "n_bufs (tx_prepare_tx_mbuf b h t s) = n_bufs s"
  by (simp_all add: tx_prepare_tx_mbuf_def Let_def proc_get_def)

lemma tx_fill_frame:
  "bufs (tx_fill i segs s) = bufs s \<and> pos (tx_fill i segs s) = pos s
   \<and> n_pkts (tx_fill i segs s) = n_pkts s \<and> n_bufs (tx_fill i segs s) = n_bufs s"
  by (induction i segs s rule: tx_fill.induct) (simp_all add: tx_prepare_tx_mbuf_frame)

lemma rte_mempool_get_bulk_frame:
  assumes "rte_mempool_get_bulk start n s = Some s'"
  shows "pos s' = pos s" "n_pkts s' = n_pkts s" "n_bufs s' = n_bufs s"
    "\<And>i. i < start \<Longrightarrow> bufs s' i = bufs s i"
  using assms by (auto simp: rte_mempool_get_bulk_def split: if_splits)

lemma tx_burst_send_pos: "pos (tx_burst_send k s) = pos s"
  by (simp add: tx_burst_send_def Let_def STAT_INC_def)

lemma tx_segment_all_bound:
  "tx_segment_all reg cap m ds cnt out = Inr (m', out') \<Longrightarrow>
     \<exists>new. out' = out @ new \<and> (new = [] \<or> cnt + length new \<le> cap)"
proof (induction reg cap m ds cnt out rule: tx_segment_all.induct)
  case (1 reg cap m cnt out)
  then show ?case by simp
next
  case (2 reg cap m h t ds cnt out)
  from "2.prems" obtain m1 hs where
    sg: "tx_segment (reg t) m h = Inr (m1, hs)" and le: "\<not> cap < cnt + length hs" and
    r: "tx_segment_all reg cap m1 ds (cnt + length hs) (out @ map (\<lambda>x. (x, t)) hs) = Inr (m', out')"
    by (auto split: sum.splits if_splits)
  from "2.IH" [OF sg refl le r] obtain new where
    n: "out' = (out @ map (\<lambda>x. (x, t)) hs) @ new" "new = [] \<or> cnt + length hs + length new \<le> cap"
    by blast
  show ?case
  proof (intro exI [of _ "map (\<lambda>x. (x, t)) hs @ new"] conjI)
    show "out' = out @ map (\<lambda>x. (x, t)) hs @ new" using n by simp
    show "map (\<lambda>x. (x, t)) hs @ new = [] \<or> cnt + length (map (\<lambda>x. (x, t)) hs @ new) \<le> cap"
      using n le by auto
  qed
qed

lemma tx_after_poll_frame:
  "pos (tx_after_poll full pt s1) = (if full then pos s1 else pos s1 + 1)"
  "n_bufs (tx_after_poll full pt s1) = n_bufs s1" "n_pkts (tx_after_poll full pt s1) = n_pkts s1"
  "bufs (tx_after_poll full pt s1) = bufs s1"
  by (simp_all add: tx_after_poll_def Let_def)

lemma tx_gso_all_frame:
  assumes "tx_gso_all B n0 pulled s = Inr (segs, s4)"
  shows "pos s4 = pos s" "n_bufs s4 = n_bufs s" "bufs s4 = bufs s"
    "n_pkts s4 = n_bufs s + of_nat (length segs)"
    "segs = [] \<or> unat (n_bufs s) + length segs \<le> TX_MAX_SEGS B"
proof -
  from assms obtain mem' where
    sg: "tx_segment_all (region_of s) (TX_MAX_SEGS B) (mem s) (drop (unat (n_bufs s - n0)) pulled)
           (unat (n_bufs s)) [] = Inr (mem', segs)"
    and s4: "s4 = s\<lparr>mem := mem', n_pkts := n_bufs s + of_nat (length segs)\<rparr>"
    by (auto simp: tx_gso_all_def split: if_splits sum.splits)
  from s4 show "pos s4 = pos s" "n_bufs s4 = n_bufs s" "bufs s4 = bufs s"
    "n_pkts s4 = n_bufs s + of_nat (length segs)" by simp_all
  from tx_segment_all_bound [OF sg]
  show "segs = [] \<or> unat (n_bufs s) + length segs \<le> TX_MAX_SEGS B" by simp
qed

lemma tx_alloc_fill_frame:
  assumes "tx_alloc_fill segs s = (x, s')"
  shows "pos s' = pos s" "n_pkts s' = n_pkts s"
    "x = None \<Longrightarrow> i < unat (n_bufs s) \<Longrightarrow> bufs s' i = bufs s i"
    "x = None \<Longrightarrow> n_bufs s' = n_pkts s"
proof -
  let ?alloc = "if n_pkts s - n_bufs s \<noteq> 0
            then rte_mempool_get_bulk (unat (n_bufs s)) (unat (n_pkts s - n_bufs s)) s
            else Some s"
  show "pos s' = pos s" "n_pkts s' = n_pkts s"
    using assms
    by (auto simp: tx_alloc_fill_def Let_def tx_fill_frame
        dest: rte_mempool_get_bulk_frame split: option.splits if_splits)
  {
    assume "x = None"
    with assms obtain s5 where a: "?alloc = Some s5"
      and s': "s' = (tx_fill (unat (n_bufs s5)) segs s5)\<lparr>n_bufs := n_pkts (tx_fill (unat (n_bufs s5)) segs s5)\<rparr>"
      by (auto simp: tx_alloc_fill_def Let_def split: option.splits)
    from a have b: "\<And>i. i < unat (n_bufs s) \<Longrightarrow> bufs s5 i = bufs s i" and n: "n_pkts s5 = n_pkts s"
      by (auto dest: rte_mempool_get_bulk_frame split: if_splits)
    from b s' have "i < unat (n_bufs s) \<Longrightarrow> bufs s' i = bufs s i"
      by (simp add: tx_fill_frame)
    moreover from n s' have "n_bufs s' = n_pkts s" by (simp add: tx_fill_frame)
    ultimately have "(i < unat (n_bufs s) \<longrightarrow> bufs s' i = bufs s i) \<and> n_bufs s' = n_pkts s" by simp
  }
  then show "x = None \<Longrightarrow> i < unat (n_bufs s) \<Longrightarrow> bufs s' i = bufs s i"
    "x = None \<Longrightarrow> n_bufs s' = n_pkts s" by simp_all
qed

lemma tx_burst_fill_cases:
  assumes "tx_burst_fill B s = Inr (x, s')"
  obtains (idle) pulled pt s1 where "tx_poll B 0 [] 0 s = Inr (False, pulled, pt, s1)"
      "n_pkts s1 = 0" "x = Some False" "s' = s1"
  | (work) full pulled pt s1 segs s4 where "tx_poll B 0 [] 0 s = Inr (full, pulled, pt, s1)"
      "full \<or> n_pkts s1 \<noteq> 0"
      "tx_print (n_pkts s) pulled (tx_after_poll full pt s1) = Inr ()"
      "tx_gso_all B (n_pkts s) pulled (tx_after_poll full pt s1) = Inr (segs, s4)"
      "tx_alloc_fill segs s4 = (x, s')"
proof -
  from assms obtain full pulled pt s1 where p: "tx_poll B 0 [] 0 s = Inr (full, pulled, pt, s1)"
    by (cases "tx_poll B 0 [] 0 s") (auto simp: tx_burst_fill_def)
  show thesis
  proof (cases "\<not> full \<and> n_pkts s1 = 0")
    case True
    with assms p show ?thesis by (intro idle [of pulled pt s1]) (simp_all add: tx_burst_fill_def)
  next
    case False
    with assms p have pr: "tx_print (n_pkts s) pulled (tx_after_poll full pt s1) = Inr ()"
      by (cases "tx_print (n_pkts s) pulled (tx_after_poll full pt s1)")
        (auto simp: tx_burst_fill_def Let_def)
    with assms p False obtain segs s4 where
      g: "tx_gso_all B (n_pkts s) pulled (tx_after_poll full pt s1) = Inr (segs, s4)"
      by (cases "tx_gso_all B (n_pkts s) pulled (tx_after_poll full pt s1)")
        (auto simp: tx_burst_fill_def Let_def)
    with assms p False pr have "tx_alloc_fill segs s4 = (x, s')"
      by (simp add: tx_burst_fill_def Let_def)
    with p False pr g show ?thesis by (intro work [of full pulled pt s1 segs s4]) auto
  qed
qed

text \<open>
  A call that returns was entered with nothing carried over: with \<open>n_pkts\<close> not zero
  on entry the function does not return at line 272, and the loop at line 289 reads
  \<open>hdrs[0]\<close>, which this call has not written.
\<close>
lemma tx_burst_fill_fresh:
  assumes "tx_burst_fill B s = Inr (x, s')"
    and "0 < B" and "B < 2 ^ 31" and "unat (n_pkts s) < 2 ^ 31"
  shows "n_pkts s = 0"
  using assms(1)
proof (cases rule: tx_burst_fill_cases)
  case (idle pulled pt s1)
  from tx_poll_count [OF idle(1) assms(3,4)] idle(2) have "unat (n_pkts s) = 0" by auto
  then show ?thesis by (simp add: unat_eq_0)
next
  case (work full pulled pt s1 segs s4)
  from tx_poll_count [OF work(1) assms(3,4)]
  have u: "unat (n_pkts s1) = unat (n_pkts s) + length pulled" by auto
  show ?thesis
  proof (cases "n_pkts s1 = 0")
    case True
    with u have "unat (n_pkts s) = 0" by simp
    then show ?thesis by (simp add: unat_eq_0)
  next
    case False
    with work(3) show ?thesis
      by (auto simp: tx_print_def tx_after_poll_frame split: if_splits)
  qed
qed

lemma tx_burst_carried_faults:
  assumes "n_pkts s \<noteq> 0" and "0 < B" and "B < 2 ^ 31" and "unat (n_pkts s) < 2 ^ 31"
  shows "\<exists>e. tx_burst B k s = Inl e"
proof (cases "tx_burst_fill B s")
  case (Inl e)
  then show ?thesis by (simp add: tx_burst_def)
next
  case (Inr a)
  obtain x s' where "a = (x, s')" by (cases a)
  with Inr tx_burst_fill_fresh [OF _ assms(2,3,4)] assms(1) show ?thesis by blast
qed

lemma fold_shift:
  "fold (\<lambda>i b. b(i := b (ret + i))) [0..<n] b = (\<lambda>j. if j < n then b (ret + j) else b j)"
proof (induction n)
  case 0
  show ?case by simp
next
  case (Suc n)
  let ?f = "\<lambda>i b. b(i := b (ret + i))"
  have "fold ?f [0..<Suc n] b = ?f n (fold ?f [0..<n] b)" by simp
  also have "\<dots> = ?f n (\<lambda>j. if j < n then b (ret + j) else b j)" by (simp only: Suc)
  also have "\<dots> = (\<lambda>j. if j < Suc n then b (ret + j) else b j)" by (auto simp: fun_eq_iff)
  finally show ?case .
qed

lemma tx_burst_send_carry:
  assumes "k < unat (n_pkts s)"
  shows "n_pkts (tx_burst_send k s) = n_pkts s - of_nat k"
    "n_bufs (tx_burst_send k s) = n_pkts s - of_nat k"
    "unat (n_pkts s - of_nat k) = unat (n_pkts s) - k"
    "tx_offered (tx_burst_send k s) = drop k (tx_offered s)"
proof -
  have lt: "unat (n_pkts s) < 2 ^ 32" using unsigned_less [of "n_pkts s"] by simp
  with assms have k32: "k < 2 ^ 32" by linarith
  then have uk: "unat (of_nat k :: 32 word) = k" by (simp add: unat_of_nat)
  with assms have less: "(of_nat k :: 32 word) < n_pkts s" by (simp add: word_less_nat_alt)
  have mn: "min k (length (tx_offered s)) = k" using assms by (simp add: tx_offered_def)
  show np: "n_pkts (tx_burst_send k s) = n_pkts s - of_nat k"
    and "n_bufs (tx_burst_send k s) = n_pkts s - of_nat k"
    using less by (simp_all add: tx_burst_send_def Let_def mn STAT_INC_def)
  show un: "unat (n_pkts s - of_nat k) = unat (n_pkts s) - k"
    using less uk by (simp add: unat_sub less_imp_le)
  have b: "bufs (tx_burst_send k s) = (\<lambda>j. if j < unat (n_pkts s) - k then bufs s (k + j) else bufs s j)"
    using less by (simp add: tx_burst_send_def Let_def mn STAT_INC_def fold_shift un cong: if_cong)
  have "tx_offered (tx_burst_send k s) = map (\<lambda>j. bufs s (k + j)) [0..<unat (n_pkts s) - k]"
    by (simp add: tx_offered_def np un b)
  also have "\<dots> = map (bufs s) (map (\<lambda>j. k + j) [0..<unat (n_pkts s) - k])" by (simp add: comp_def)
  also have "map (\<lambda>j. k + j) [0..<unat (n_pkts s) - k] = [k..<unat (n_pkts s)]"
    using assms map_add_upt [of k "unat (n_pkts s) - k"] by (simp add: add.commute [of _ k])
  also have "map (bufs s) [k..<unat (n_pkts s)] = drop k (tx_offered s)"
    by (simp add: tx_offered_def drop_map)
  finally show "tx_offered (tx_burst_send k s) = drop k (tx_offered s)" .
qed

subsection \<open>Example bursts\<close>

text \<open>A descriptor of the given token and length at \<open>h\<close>, and a memory with three small packets.\<close>
definition put_desc :: "shm \<Rightarrow> addr \<Rightarrow> 64 word \<Rightarrow> 32 word \<Rightarrow> shm" where
  "put_desc m h tok len = store32 (store64 m h tok) (h + 12) len"

definition three_pkts :: shm where
  "three_pkts = put_desc (put_desc (put_desc (\<lambda>_. 0) 0x100 0xA1 100) 0x200 0xA2 100) 0x300 0xA3 100"

lemma put_desc_fields:
  "hdr_len (put_desc m h tok len) h = len"
  "hdr_completion_data (put_desc m h tok len) h = tok"
  "h' + 60 \<le> h \<or> h + 60 \<le> h' \<Longrightarrow> hdr_len (put_desc m h tok len) h' = hdr_len m h'"
  "h' + 60 \<le> h \<or> h + 60 \<le> h' \<Longrightarrow> hdr_completion_data (put_desc m h tok len) h' = hdr_completion_data m h'"
  "h' + 60 \<le> h \<or> h + 60 \<le> h' \<Longrightarrow> hdr_olflags (put_desc m h tok len) h' = hdr_olflags m h'"
  "hdr_olflags (put_desc m h tok len) h = hdr_olflags m h"
  "udp_len (put_desc m h tok len) h = udp_len m h"
  "h' + 60 \<le> h \<or> h + 60 \<le> h' \<Longrightarrow> udp_len (put_desc m h tok len) h' = udp_len m h'"
  by (auto simp: put_desc_def field_defs load_store_other)

lemma zero_mem_fields: "hdr_olflags (\<lambda>_. 0) h = 0" "udp_len (\<lambda>_. 0) h = 0"
  by (simp_all add: hdr_olflags_def udp_len_def load32_def load_be16_def load_bytes_def upt_conv_Cons)

lemma three_pkts_fields:
  "hdr_len three_pkts 0x100 = 100" "hdr_len three_pkts 0x200 = 100" "hdr_len three_pkts 0x300 = 100"
  "hdr_completion_data three_pkts 0x100 = 0xA1" "hdr_completion_data three_pkts 0x200 = 0xA2"
  "hdr_completion_data three_pkts 0x300 = 0xA3"
  "hdr_olflags three_pkts 0x100 = 0" "hdr_olflags three_pkts 0x200 = 0" "hdr_olflags three_pkts 0x300 = 0"
  "udp_len three_pkts 0x100 = 0" "udp_len three_pkts 0x200 = 0" "udp_len three_pkts 0x300 = 0"
  by (simp_all add: three_pkts_def put_desc_fields zero_mem_fields)

text \<open>The state a call returns in (the empty state when it faults).\<close>
definition state_after :: "fault + ('a \<times> iokernel) \<Rightarrow> iokernel" where
  "state_after r = (case r of Inl e \<Rightarrow> iokernel0 | Inr (_, s) \<Rightarrow> s)"

text \<open>One thread with two, and with three, small packets queued.\<close>
definition st1 :: iokernel where
  "st1 = runtime_state [(0, 0x100), (0, 0x200)] three_pkts"

definition st3 :: iokernel where
  "st3 = runtime_state [(0, 0x100), (0, 0x200), (0, 0x300)] three_pkts"

lemma print_pkt_contents_eq:
  "print_pkt_contents r m h =
     (if \<not> in_region r (h + 56) 2 then Inl Out_of_bounds
      else if 4 \<le> sint (ucast (udp_len m h) - 8 :: 32 word) \<and>
              \<not> in_region r (h + 60) (4 * nat (sint (ucast (udp_len m h) - 8 :: 32 word) div 4))
           then Inl Out_of_bounds else Inr ())"
  by (simp add: print_pkt_contents_def Let_def udp_len_def hdr_payload_def UDP_OFFSET_def add.assoc)

lemmas burst_defs = tx_burst_def tx_burst_fill_def tx_after_poll_def tx_gso_all_def
      tx_alloc_fill_def tx_poll.simps tx_drain_queue_def
      tx_drain_loop.simps lrpc_recv_def BUG_ON_def TXPKT_NET_XMIT_def Let_def shmptr_to_ptr_def
      sizeof_tx_net_hdr_def tx_segment_def MTU_SIZE_def TX_MAX_SEGS_def rte_mempool_get_bulk_def
      tx_prepare_tx_mbuf_def proc_get_def tx_burst_send_def tx_offered_def STAT_INC_def
      three_pkts_fields unpoll_thread_def upt_conv_Cons
      word_le_nat_alt word_less_nat_alt tx_print_def print_pkt_contents_eq region_of_def
      in_region_def

text \<open>What the polling loop pulls, and what \<open>tx_burst\<close> is about to offer to the driver.\<close>
definition tx_polled :: "nat \<Rightarrow> iokernel \<Rightarrow> fault + (bool \<times> (addr \<times> thread_ptr) list)" where
  "tx_polled B s =
     (case tx_poll B 0 [] 0 s of Inl e \<Rightarrow> Inl e | Inr (full, pulled, pulltotal, s') \<Rightarrow> Inr (full, pulled))"

definition offered_by :: "fault + (bool option \<times> iokernel) \<Rightarrow> fault + (bool option \<times> mbuf_ptr list)" where
  "offered_by r = (case r of Inl e \<Rightarrow> Inl e | Inr (x, s) \<Rightarrow> Inr (x, tx_offered s))"

subsection \<open>Claims on the transmit burst\<close>

text \<open>
  C5, at a call after back-pressure. With a burst size of 2 and three packets queued,
  the first call offers buffers 10 and 11 and the driver takes one: buffer 11 is kept
  at the front of \<open>bufs\<close> and \<open>n_pkts\<close> is 1. The next call polls the runtime all
  the same and pulls the third descriptor into \<open>hdrs[1]\<close>; the loop at line 289 then
  reads \<open>hdrs[0]\<close>, which this call has not written, and the call never reaches the
  driver: the buffer carried over is not offered.
\<close>
theorem tx_burst_after_backpressure_faults:
  "offered_by (tx_burst_fill 2 st3) = Inr (None, [10, 11]) \<and>
   n_pkts (state_after (tx_burst 2 1 st3)) = 1 \<and>
   tx_offered (state_after (tx_burst 2 1 st3)) = [11] \<and>
   msgs (txpktq (thread_tab (state_after (tx_burst 2 1 st3)) 0)) = [(0, 0x300)] \<and>
   tx_polled 2 (state_after (tx_burst 2 1 st3)) = Inr (True, [(0x300, 0)]) \<and>
   tx_burst 2 1 (state_after (tx_burst 2 1 st3)) = Inl Uninitialised"
  by (simp add: st3_def runtime_defs burst_defs state_after_def tx_polled_def offered_by_def)

text \<open>
  C6. In a call of \<open>tx_burst\<close> that returns (the burst size is positive and the counts
  fit the arrays), nothing was carried over on entry, at most \<open>B\<close> descriptors are
  pulled, and \<open>pos\<close> is advanced by exactly one when and only when at least one
  descriptor was pulled and fewer than \<open>B\<close> were: when the burst fills, and when
  nothing is pulled, \<open>pos\<close> is unchanged.
\<close>
theorem tx_burst_pos_advance:
  assumes "tx_burst B k s = Inr (r, s')"
    and "0 < B" and "TX_MAX_SEGS B < 2 ^ 31" and "unat (n_pkts s) \<le> TX_MAX_SEGS B"
  shows "\<exists>full pulled pt s1. tx_poll B 0 [] 0 s = Inr (full, pulled, pt, s1)
           \<and> n_pkts s = 0 \<and> length pulled \<le> B
           \<and> (full \<longleftrightarrow> length pulled = B)
           \<and> pos s' = (if pulled \<noteq> [] \<and> length pulled < B then pos s + 1 else pos s)"
proof -
  from assms(3) have B31: "B < 2 ^ 31" by (simp add: TX_MAX_SEGS_def)
  from assms(3,4) have n31: "unat (n_pkts s) < 2 ^ 31" by linarith
  from assms(1) obtain x s2 where f: "tx_burst_fill B s = Inr (x, s2)"
    and ps: "pos s' = pos s2"
    by (cases "tx_burst_fill B s")
      (auto simp: tx_burst_def tx_burst_send_pos split: option.splits)
  have n0: "n_pkts s = 0" by (rule tx_burst_fill_fresh [OF f assms(2) B31 n31])
  have uB: "unat (of_nat B :: 32 word) = B" using B31 by (simp add: unat_of_nat)
  have cnt: "\<And>full pulled pt s1. tx_poll B 0 [] 0 s = Inr (full, pulled, pt, s1) \<Longrightarrow>
      unat (n_pkts s1) = length pulled \<and> length pulled \<le> B \<and> (full \<longleftrightarrow> length pulled = B)
      \<and> pos s1 = pos s"
  proof -
    fix full pulled pt s1
    assume p: "tx_poll B 0 [] 0 s = Inr (full, pulled, pt, s1)"
    from tx_poll_count [OF p B31 n31] n0
    have u: "unat (n_pkts s1) = length pulled" and le: "length pulled \<le> B" by auto
    note fr = tx_poll_frame [OF p]
    have "full \<longleftrightarrow> length pulled = B"
    proof
      assume full
      with fr have "of_nat B \<le> n_pkts s1" by blast
      then have "B \<le> length pulled" by (simp add: word_le_nat_alt uB u)
      with le show "length pulled = B" by simp
    next
      assume eq: "length pulled = B"
      show full
      proof (rule ccontr)
        assume nf: "\<not> full"
        show False
        proof (cases "0 < length (ts s)")
          case True
          with nf fr have "n_pkts s1 < of_nat B" by blast
          then show False by (simp add: word_less_nat_alt uB u eq)
        next
          case False
          then have "tx_poll B 0 [] 0 s = Inr (False, [], 0, s)" by (intro tx_poll_done) simp
          with p eq assms(2) show False by simp
        qed
      qed
    qed
    with u le fr show "unat (n_pkts s1) = length pulled \<and> length pulled \<le> B
      \<and> (full \<longleftrightarrow> length pulled = B) \<and> pos s1 = pos s" by simp
  qed
  from f show ?thesis
  proof (cases rule: tx_burst_fill_cases)
    case (idle pulled pt s1)
    from cnt [OF idle(1)] idle(2) have "pulled = []" by simp
    with cnt [OF idle(1)] idle ps n0 assms(2) show ?thesis by auto
  next
    case (work full pulled pt s1 segs s4)
    note c = cnt [OF work(1)]
    have "pos s2 = pos (tx_after_poll full pt s1)"
      using tx_alloc_fill_frame(1) [OF work(5)] tx_gso_all_frame(1) [OF work(4)] by simp
    with ps c have p1: "pos s' = (if full then pos s else pos s + 1)"
      by (simp add: tx_after_poll_frame)
    have ne: "\<not> full \<Longrightarrow> pulled \<noteq> []"
    proof
      assume "\<not> full" "pulled = []"
      with c work(2) show False by (simp add: unat_eq_0)
    qed
    have "pos s' = (if pulled \<noteq> [] \<and> length pulled < B then pos s + 1 else pos s)"
    proof (cases full)
      case True
      with c p1 show ?thesis by simp
    next
      case False
      with c have "length pulled < B" by simp
      with False ne p1 show ?thesis by simp
    qed
    with c n0 work(1) show ?thesis by blast
  qed
qed

theorem tx_burst_pos_advance_witness:
  "0 < (32 :: nat) \<and> TX_MAX_SEGS 32 < 2 ^ 31 \<and> unat (n_pkts st1) \<le> TX_MAX_SEGS 32 \<and>
   tx_polled 32 st1 = Inr (False, [(0x100, 0), (0x200, 0)]) \<and>
   (\<exists>s'. tx_burst 32 1 st1 = Inr (True, s') \<and> pos s' = pos st1 + 1) \<and>
   0 < (2 :: nat) \<and> TX_MAX_SEGS 2 < 2 ^ 31 \<and> unat (n_pkts st3) \<le> TX_MAX_SEGS 2 \<and>
   tx_polled 2 st3 = Inr (True, [(0x100, 0), (0x200, 0)]) \<and>
   (\<exists>s'. tx_burst 2 1 st3 = Inr (True, s') \<and> pos s' = pos st3)"
proof -
  have h1: "0 < (32 :: nat)" "TX_MAX_SEGS 32 < 2 ^ 31" "unat (n_pkts st1) \<le> TX_MAX_SEGS 32"
    by (simp_all add: TX_MAX_SEGS_def st1_def runtime_defs)
  have h2: "0 < (2 :: nat)" "TX_MAX_SEGS 2 < 2 ^ 31" "unat (n_pkts st3) \<le> TX_MAX_SEGS 2"
    by (simp_all add: TX_MAX_SEGS_def st3_def runtime_defs)
  obtain s1' where e1: "tx_burst 32 1 st1 = Inr (True, s1')"
    by (simp add: st1_def runtime_defs burst_defs)
  obtain s3' where e3: "tx_burst 2 1 st3 = Inr (True, s3')"
    by (simp add: st3_def runtime_defs burst_defs)
  have p1: "tx_polled 32 st1 = Inr (False, [(0x100, 0), (0x200, 0)])"
    by (simp add: st1_def runtime_defs burst_defs tx_polled_def)
  have p3: "tx_polled 2 st3 = Inr (True, [(0x100, 0), (0x200, 0)])"
    by (simp add: st3_def runtime_defs burst_defs tx_polled_def)
  from tx_burst_pos_advance [OF e1 h1] obtain full pulled pt s1 where
    q: "tx_poll 32 0 [] 0 st1 = Inr (full, pulled, pt, s1)" and
    ps: "pos s1' = (if pulled \<noteq> [] \<and> length pulled < 32 then pos st1 + 1 else pos st1)"
    by blast
  from p1 q have "pulled = [(0x100, 0), (0x200, 0)]" by (simp add: tx_polled_def)
  with ps have a: "pos s1' = pos st1 + 1" by simp
  from tx_burst_pos_advance [OF e3 h2] obtain full' pulled' pt' s3 where
    q': "tx_poll 2 0 [] 0 st3 = Inr (full', pulled', pt', s3)" and
    ps': "pos s3' = (if pulled' \<noteq> [] \<and> length pulled' < 2 then pos st3 + 1 else pos st3)"
    by blast
  from p3 q' have "pulled' = [(0x100, 0), (0x200, 0)]" by (simp add: tx_polled_def)
  with ps' have b: "pos s3' = pos st3" by simp
  from h1 h2 p1 p3 e1 e3 a b show ?thesis by blast
qed

text \<open>
  C8, at a descriptor with no payload. The descriptor is 1560 bytes long and its UDP
  length field is 8, so the payload recovered is zero. Nothing checks that: the
  segmenter computes \<open>(1560 + 18) / 60 = 26\<close> segments and starts the first loop, whose
  first \<open>memmove\<close> is asked for \<open>0 - 1458 * 25\<close> bytes as an \<open>unsigned int\<close>, that
  is 4294930846 bytes, which leave the 64 KiB region of the process. The descriptor is
  not dropped and no completion is delivered for it: the call does not return.
\<close>
theorem tx_burst_zero_payload_faults:
  "MTU_SIZE < hdr_len (packet_mem 0xAA 1560 8) 0 \<and>
   gso_len (packet_mem 0xAA 1560 8) 0 = 0 \<and>
   gso_segs (packet_mem 0xAA 1560 8) 0 = 26 \<and>
   unat (gso_len (packet_mem 0xAA 1560 8) 0 - 1458 * (gso_segs (packet_mem 0xAA 1560 8) 0 - 1))
     = 4294930846 \<and>
   tx_polled 32 (runtime_state [(0, 0)] (packet_mem 0xAA 1560 8)) = Inr (False, [(0, 0)]) \<and>
   tx_segment region64k (packet_mem 0xAA 1560 8) 0 = Inl Out_of_bounds \<and>
   tx_burst 32 32 (runtime_state [(0, 0)] (packet_mem 0xAA 1560 8)) = Inl Out_of_bounds"
proof -
  let ?m = "packet_mem 0xAA 1560 8"
  have u: "udp_len ?m 0 = 8"
    by (simp add: packet_mem_def udp_len_def hdr_payload_def)
  have sg: "\<And>r. region_base r = 0 \<Longrightarrow> region_len r = 65536 \<Longrightarrow> tx_segment r ?m 0 = Inl Out_of_bounds"
    by (simp add: tx_segment_def tx_gso_def packet_mem_fields segs_1560 MTU_SIZE_def Let_def
        in_region_def hdr_payload_def UDP_OFFSET_def gso_move.simps [of _ _ _ "Suc 0"] memmove_def)
  have a: "tx_segment region64k ?m 0 = Inl Out_of_bounds"
    by (rule sg) (simp_all add: region64k_def proc0_def)
  have b: "tx_burst 32 32 (runtime_state [(0, 0)] ?m) = Inl Out_of_bounds"
    by (simp add: runtime_defs tx_burst_def tx_burst_fill_def tx_after_poll_def tx_gso_all_def
        tx_poll.simps tx_drain_queue_def tx_drain_loop.simps lrpc_recv_def BUG_ON_def
        TXPKT_NET_XMIT_def Let_def shmptr_to_ptr_def sizeof_tx_net_hdr_def TX_MAX_SEGS_def
        word_le_nat_alt word_less_nat_alt tx_print_def print_pkt_contents_eq region_of_def
        in_region_def u sg)
  have c: "tx_polled 32 (runtime_state [(0, 0)] ?m) = Inr (False, [(0, 0)])"
    by (simp add: runtime_defs tx_polled_def tx_poll.simps tx_drain_queue_def tx_drain_loop.simps
        lrpc_recv_def BUG_ON_def TXPKT_NET_XMIT_def Let_def shmptr_to_ptr_def sizeof_tx_net_hdr_def
        word_le_nat_alt word_less_nat_alt)
  from a b c show ?thesis
    by (simp add: packet_mem_fields segs_1560 MTU_SIZE_def)
qed

subsection \<open>Well-formed bursts\<close>

text \<open>What the driver is handed with a buffer: the address of the frame, its length and
  the completion token kept in the private trailer.\<close>
definition offered_desc :: "iokernel \<Rightarrow> mbuf_ptr \<Rightarrow> addr \<times> 32 word \<times> 64 word" where
  "offered_desc s b =
     (buf_addr (mbuf_tab s b), pkt_len (mbuf_tab s b), completion_data (priv (mbuf_tab s b)))"

text \<open>The same three values as the descriptor header at \<open>a\<close> gives them.\<close>
definition seg_desc :: "shm \<Rightarrow> addr \<Rightarrow> addr \<times> 32 word \<times> 64 word" where
  "seg_desc m a = (hdr_payload a, hdr_len m a, hdr_completion_data m a)"

text \<open>The bytes a descriptor occupies: the 18 bytes of its header and its frame.\<close>
definition desc_size :: "shm \<Rightarrow> addr \<Rightarrow> nat" where
  "desc_size m h = 18 + unat (hdr_len m h)"

text \<open>Two descriptors do not overlap.\<close>
definition apart :: "shm \<Rightarrow> addr \<Rightarrow> addr \<Rightarrow> bool" where
  "apart m h h' \<longleftrightarrow> h + int (desc_size m h) \<le> h' \<or> h' + int (desc_size m h') \<le> h"

text \<open>
  An oversized descriptor that the segmenter can work on: the frame holds the 42 bytes
  of headers and the UDP payload, and the payload fills all segments but the last.
\<close>
definition gso_ok :: "shm \<Rightarrow> addr \<Rightarrow> bool" where
  "gso_ok m h \<longleftrightarrow>
     unat (gso_len m h) + 42 \<le> unat (hdr_len m h) \<and>
     1458 * (unat (gso_segs m h) - 1) \<le> unat (gso_len m h)"

text \<open>
  A well-formed burst: every descriptor lies inside the region of its process, every
  oversized one is as the segmenter expects, and no two descriptors overlap.
\<close>
fun burst_ok :: "(thread_ptr \<Rightarrow> proc) \<Rightarrow> shm \<Rightarrow> (addr \<times> thread_ptr) list \<Rightarrow> bool" where
  "burst_ok reg m [] \<longleftrightarrow> True"
| "burst_ok reg m ((h, t) # ds) \<longleftrightarrow>
     in_region (reg t) h (desc_size m h) \<and>
     (MTU_SIZE < hdr_len m h \<longrightarrow> gso_ok m h) \<and>
     (\<forall>(h', t') \<in> set ds. apart m h h') \<and>
     burst_ok reg m ds"

text \<open>
  What the claim expects the driver to be handed for the descriptor at \<open>h\<close>: the
  descriptor itself when it is not longer than MTU, and otherwise \<open>segs - 1\<close> segments
  of 1500 bytes with token zero followed by the last segment with the token of the
  descriptor.
\<close>
definition expected :: "shm \<Rightarrow> addr \<Rightarrow> (addr \<times> 32 word \<times> 64 word) list" where
  "expected m h =
     (if hdr_len m h \<le> MTU_SIZE then [(hdr_payload h, hdr_len m h, hdr_completion_data m h)]
      else map (\<lambda>k. (hdr_payload (h + 1518 * int k), 1500, 0)) [0..<unat (gso_segs m h) - 1] @
           [(hdr_payload (h + 1518 * int (unat (gso_segs m h) - 1)), gso_last_len m h,
             hdr_completion_data m h)])"

subsection \<open>Lemmas on well-formed bursts\<close>

lemma gso_len_udp: "gso_len m h = ucast (udp_len m h) - 8"
  by (simp add: gso_len_def udp_len_def UDP_OFFSET_def hdr_payload_def add.assoc)

lemma gso_segs_nat:
  assumes "unat (gso_len m h) \<le> unat (hdr_len m h) + 18"
  shows "unat (gso_segs m h) = (unat (hdr_len m h) + 18 - unat (gso_len m h)) div 60"
proof -
  let ?x = "ucast (hdr_len m h) :: 64 word" and ?y = "ucast (gso_len m h) :: 64 word"
  have ux: "unat ?x = unat (hdr_len m h)" and uy: "unat ?y = unat (gso_len m h)"
    by (rule unat_ucast_up)+
  have lt: "unat (hdr_len m h) < 2 ^ 32" using unsigned_less [of "hdr_len m h"] by simp
  have "unat ?x + unat (18 :: 64 word) < 2 ^ LENGTH(64)" using lt by (simp add: ux)
  then have "unat (?x + 18) = unat ?x + unat (18 :: 64 word)"
    by (simp only: unat_add_lem [THEN iffD1])
  then have a: "unat (?x + 18) = unat (hdr_len m h) + 18" by (simp add: ux)
  have "?y \<le> ?x + 18" using assms by (simp only: word_le_nat_alt a uy)
  from unat_sub [OF this] have "unat (?x + 18 - ?y) = unat (hdr_len m h) + 18 - unat (gso_len m h)"
    by (simp only: a uy)
  then have d: "unat ((?x + 18 - ?y) div 60) = (unat (hdr_len m h) + 18 - unat (gso_len m h)) div 60"
    by (simp only: unat_div) simp
  have "(unat (hdr_len m h) + 18 - unat (gso_len m h)) div 60 < 2 ^ 32" using lt by simp
  with d have "unat (ucast ((?x + 18 - ?y) div 60) :: 32 word)
                 = (unat (hdr_len m h) + 18 - unat (gso_len m h)) div 60"
    by (simp only: unat_ucast_down)
  then show ?thesis by (simp only: gso_segs_def sizeof_tx_net_hdr_def) simp
qed

lemma gso_ok_area:
  assumes "gso_ok m h"
  shows "gso_segs m h \<noteq> 0" "gso_area m h \<le> desc_size m h"
    "1518 * (unat (gso_segs m h) - 1) + 60 \<le> desc_size m h"
proof -
  let ?L = "unat (hdr_len m h)" and ?P = "unat (gso_len m h)" and ?S = "unat (gso_segs m h)"
  from assms have fitL: "?P + 42 \<le> ?L" and fit: "1458 * (?S - 1) \<le> ?P"
    by (simp_all add: gso_ok_def)
  then have S: "?S = (?L + 18 - ?P) div 60" by (intro gso_segs_nat) simp
  from fitL have "60 \<le> ?L + 18 - ?P" by simp
  then have "1 \<le> (?L + 18 - ?P) div 60" by simp
  with S have S1: "1 \<le> ?S" by simp
  then show "gso_segs m h \<noteq> 0" by (auto simp: unat_eq_0)
  have "60 * ?S \<le> ?L + 18 - ?P" unfolding S by simp
  with fitL show a: "gso_area m h \<le> desc_size m h" by (simp add: gso_area_def desc_size_def)
  have "1518 * (?S - 1) + 60 \<le> gso_area m h" using fit S1 by (simp add: gso_area_def)
  with a show "1518 * (?S - 1) + 60 \<le> desc_size m h" by linarith
qed

lemma fields_agree:
  assumes "\<And>x. a \<le> x \<Longrightarrow> x < a + 16 \<Longrightarrow> m' x = m x"
  shows "hdr_len m' a = hdr_len m a" "hdr_completion_data m' a = hdr_completion_data m a"
    "hdr_olflags m' a = hdr_olflags m a" "seg_desc m' a = seg_desc m a"
proof -
  have b: "\<And>k n. k + int n \<le> 16 \<Longrightarrow> 0 \<le> k \<Longrightarrow> load_bytes m' (a + k) n = load_bytes m (a + k) n"
    by (rule load_bytes_cong) (simp add: assms)
  show l: "hdr_len m' a = hdr_len m a"
    unfolding hdr_len_def load32_def using b [of 12 4] by simp
  show c: "hdr_completion_data m' a = hdr_completion_data m a"
    unfolding hdr_completion_data_def load64_def using b [of 0 8] by simp
  show "hdr_olflags m' a = hdr_olflags m a"
    unfolding hdr_olflags_def load32_def using b [of 8 4] by simp
  from l c show "seg_desc m' a = seg_desc m a" by (simp add: seg_desc_def)
qed

lemma desc_agree:
  assumes "\<And>x. h \<le> x \<Longrightarrow> x < h + int (desc_size m h) \<Longrightarrow> m' x = m x"
  shows "hdr_len m' h = hdr_len m h" "desc_size m' h = desc_size m h"
    "expected m' h = expected m h"
    "(MTU_SIZE < hdr_len m' h \<longrightarrow> gso_ok m' h) \<longleftrightarrow> (MTU_SIZE < hdr_len m h \<longrightarrow> gso_ok m h)"
proof -
  have "16 \<le> desc_size m h" by (simp add: desc_size_def)
  then have s16: "(16 :: int) \<le> int (desc_size m h)" by linarith
  have "\<And>x. h \<le> x \<Longrightarrow> x < h + 16 \<Longrightarrow> m' x = m x"
  proof -
    fix x assume x: "h \<le> x" "x < h + 16"
    with s16 have "x < h + int (desc_size m h)" by linarith
    with x(1) show "m' x = m x" by (rule assms)
  qed
  note f = fields_agree [OF this]
  show l: "hdr_len m' h = hdr_len m h" by (rule f)
  then show "desc_size m' h = desc_size m h" by (simp add: desc_size_def)
  have g: "MTU_SIZE < hdr_len m h \<Longrightarrow> gso_len m' h = gso_len m h \<and> gso_segs m' h = gso_segs m h"
  proof -
    assume "MTU_SIZE < hdr_len m h"
    then have "1500 < unat (hdr_len m h)" by (simp add: MTU_SIZE_def word_less_nat_alt)
    then have "60 \<le> desc_size m h" by (simp add: desc_size_def)
    then have s60: "(60 :: int) \<le> int (desc_size m h)" by linarith
    have "\<And>x. h \<le> x \<Longrightarrow> x < h + 60 \<Longrightarrow> m' x = m x"
    proof -
      fix x assume x: "h \<le> x" "x < h + 60"
      with s60 have "x < h + int (desc_size m h)" by linarith
      with x(1) show "m' x = m x" by (rule assms)
    qed
    then have "same_block m' h m h" by (rule same_block_unchanged)
    then have "udp_len m' h = udp_len m h" by (simp add: same_block_fields)
    then have "gso_len m' h = gso_len m h" by (simp add: gso_len_udp)
    with l show ?thesis by (simp add: gso_segs_def)
  qed
  show "expected m' h = expected m h"
    using g f by (auto simp: expected_def gso_last_len_def not_le)
  show "(MTU_SIZE < hdr_len m' h \<longrightarrow> gso_ok m' h) \<longleftrightarrow> (MTU_SIZE < hdr_len m h \<longrightarrow> gso_ok m h)"
    using g l by (auto simp: gso_ok_def)
qed

lemma burst_ok_agree:
  assumes "burst_ok reg m ds"
    and "\<forall>(h, t) \<in> set ds. \<forall>x. h \<le> x \<and> x < h + int (desc_size m h) \<longrightarrow> m' x = m x"
  shows "burst_ok reg m' ds"
  using assms
proof (induction ds)
  case Nil
  show ?case by simp
next
  case (Cons d ds)
  obtain h t where d: "d = (h, t)" by (cases d)
  from Cons.prems(2) d have ah: "\<And>x. h \<le> x \<Longrightarrow> x < h + int (desc_size m h) \<Longrightarrow> m' x = m x"
    by simp
  note eh = desc_agree [OF ah]
  have rest: "\<forall>(h, t) \<in> set ds. \<forall>x. h \<le> x \<and> x < h + int (desc_size m h) \<longrightarrow> m' x = m x"
    using Cons.prems(2) by simp
  have sz: "\<And>h' t'. (h', t') \<in> set ds \<Longrightarrow> desc_size m' h' = desc_size m h'"
  proof -
    fix h' t' assume "(h', t') \<in> set ds"
    with rest have "\<And>x. h' \<le> x \<Longrightarrow> x < h' + int (desc_size m h') \<Longrightarrow> m' x = m x" by auto
    then show "desc_size m' h' = desc_size m h'" by (rule desc_agree)
  qed
  from Cons.prems(1) d have b: "in_region (reg t) h (desc_size m h)"
    "MTU_SIZE < hdr_len m h \<longrightarrow> gso_ok m h" "\<forall>(h', t') \<in> set ds. apart m h h'" "burst_ok reg m ds"
    by simp_all
  have "\<forall>(h', t') \<in> set ds. apart m' h h'"
    using b(3) sz eh(2) by (auto simp: apart_def)
  moreover have "burst_ok reg m' ds" using b(4) rest by (rule Cons.IH)
  ultimately show ?case using b(1,2) eh d by simp
qed

lemma tx_segment_result:
  assumes reg: "in_region r h (desc_size m h)" and ok: "MTU_SIZE < hdr_len m h \<longrightarrow> gso_ok m h"
  shows "\<exists>m1 hs. tx_segment r m h = Inr (m1, hs)
           \<and> map (seg_desc m1) hs = expected m h
           \<and> (\<forall>a \<in> set hs. h \<le> a \<and> a + 16 \<le> h + int (desc_size m h))
           \<and> (\<forall>x. x < h \<or> h + int (desc_size m h) \<le> x \<longrightarrow> m1 x = m x)
           \<and> (hdr_len m h \<le> MTU_SIZE \<longrightarrow> m1 = m)"
proof (cases "hdr_len m h \<le> MTU_SIZE")
  case True
  then have "tx_segment r m h = Inr (m, [h])" by (simp add: tx_segment_def)
  with True show ?thesis by (simp add: expected_def seg_desc_def desc_size_def)
next
  case False
  then have big: "MTU_SIZE < hdr_len m h" by simp
  with ok have g: "gso_ok m h" by simp
  note ar = gso_ok_area [OF g]
  let ?S = "unat (gso_segs m h)"
  have fit: "1458 * (?S - 1) \<le> unat (gso_len m h)" using g by (simp add: gso_ok_def)
  have reg': "in_region r h (gso_area m h)"
    using reg ar(2) by (simp add: in_region_def)
  from tx_segment_shape [OF big ar(1) fit reg'] obtain m1 where
    r: "tx_segment r m h = Inr (m1, map (\<lambda>k. h + 1518 * int k) [0..<?S])" and
    f1: "\<And>k. Suc k < ?S \<Longrightarrow> seg_fields m1 (h + 1518 * int k) = (1500, 0, 1466, 1486)" and
    f2: "seg_fields m1 (h + 1518 * int (unat (gso_segs m h - 1))) =
               (gso_last_len m h, hdr_completion_data m h,
                ucast (gso_last_len m h - 34), ucast (gso_last_len m h - 14))" and
    fr: "\<And>x. x < h \<or> h + int (gso_area m h) \<le> x \<Longrightarrow> m1 x = m x"
    by blast
  have sn: "Suc (unat (gso_segs m h - 1)) = ?S" by (rule unat_pred [OF ar(1)])
  then have s1: "unat (gso_segs m h - 1) = ?S - 1" by simp
  have up: "[0..<?S] = [0..<?S - 1] @ [?S - 1]"
    using sn by (metis s1 upt_Suc_append le0)
  have a: "map (seg_desc m1) (map (\<lambda>k. h + 1518 * int k) [0..<?S]) = expected m h"
  proof -
    have "\<And>k. k \<in> set [0..<?S - 1] \<Longrightarrow>
        seg_desc m1 (h + 1518 * int k) = (hdr_payload (h + 1518 * int k), 1500, 0)"
    proof -
      fix k assume "k \<in> set [0..<?S - 1]"
      then have "Suc k < ?S" by simp
      from f1 [OF this] show "seg_desc m1 (h + 1518 * int k) = (hdr_payload (h + 1518 * int k), 1500, 0)"
        by (simp add: seg_fields_def seg_desc_def)
    qed
    then have "map (\<lambda>k. seg_desc m1 (h + 1518 * int k)) [0..<?S - 1] =
               map (\<lambda>k. (hdr_payload (h + 1518 * int k), 1500, 0)) [0..<?S - 1]"
      by (intro map_cong refl)
    moreover have "seg_desc m1 (h + 1518 * int (?S - 1)) =
        (hdr_payload (h + 1518 * int (?S - 1)), gso_last_len m h, hdr_completion_data m h)"
      using f2 unfolding s1 by (simp add: seg_fields_def seg_desc_def)
    ultimately have "map (\<lambda>k. seg_desc m1 (h + 1518 * int k)) ([0..<?S - 1] @ [?S - 1]) =
        expected m h"
      using False by (simp add: expected_def)
    then show ?thesis unfolding up [symmetric] by (simp add: comp_def)
  qed
  have b: "\<forall>a \<in> set (map (\<lambda>k. h + 1518 * int k) [0..<?S]). h \<le> a \<and> a + 16 \<le> h + int (desc_size m h)"
  proof
    fix a assume "a \<in> set (map (\<lambda>k. h + 1518 * int k) [0..<?S])"
    then obtain k where k: "k < ?S" and a: "a = h + 1518 * int k" by auto
    from k have "1518 * k + 16 \<le> 1518 * (?S - 1) + 60" by simp
    with ar(3) have "1518 * k + 16 \<le> desc_size m h" by linarith
    then have "1518 * int k + 16 \<le> int (desc_size m h)" by linarith
    with a show "h \<le> a \<and> a + 16 \<le> h + int (desc_size m h)" by simp
  qed
  have c: "\<forall>x. x < h \<or> h + int (desc_size m h) \<le> x \<longrightarrow> m1 x = m x"
  proof (intro allI impI)
    fix x assume "x < h \<or> h + int (desc_size m h) \<le> x"
    with ar(2) have "x < h \<or> h + int (gso_area m h) \<le> x" by linarith
    then show "m1 x = m x" by (rule fr)
  qed
  from r a b c False show ?thesis by blast
qed

text \<open>
  The segmenter on a well-formed burst: the headers it emits hold what the claim
  expects, descriptor after descriptor, the memory outside the descriptors is as it was,
  and so is every descriptor that is not longer than MTU.
\<close>
lemma tx_segment_all_result:
  assumes "burst_ok reg m ds" and "tx_segment_all reg cap m ds cnt out = Inr (m', out')"
  shows "\<exists>segs. out' = out @ segs
           \<and> map (\<lambda>(a, t). seg_desc m' a) segs = concat (map (\<lambda>(h, t). expected m h) ds)
           \<and> (\<forall>x. (\<forall>(h, t) \<in> set ds. x < h \<or> h + int (desc_size m h) \<le> x) \<longrightarrow> m' x = m x)
           \<and> (\<forall>(h, t) \<in> set ds. hdr_len m h \<le> MTU_SIZE \<longrightarrow>
                (\<forall>x. h \<le> x \<and> x < h + int (desc_size m h) \<longrightarrow> m' x = m x))"
  using assms
proof (induction ds arbitrary: m cnt out)
  case Nil
  then show ?case by simp
next
  case (Cons d ds)
  obtain h t where d: "d = (h, t)" by (cases d)
  from Cons.prems(1) d have reg: "in_region (reg t) h (desc_size m h)"
    and ok: "MTU_SIZE < hdr_len m h \<longrightarrow> gso_ok m h"
    and ap: "\<And>h' t'. (h', t') \<in> set ds \<Longrightarrow> apart m h h'"
    and bo: "burst_ok reg m ds"
    by auto
  from tx_segment_result [OF reg ok] obtain m1 hs where
    sg: "tx_segment (reg t) m h = Inr (m1, hs)" and
    e: "map (seg_desc m1) hs = expected m h" and
    ins: "\<And>a. a \<in> set hs \<Longrightarrow> h \<le> a \<and> a + 16 \<le> h + int (desc_size m h)" and
    fr1: "\<And>x. x < h \<or> h + int (desc_size m h) \<le> x \<Longrightarrow> m1 x = m x" and
    sm1: "hdr_len m h \<le> MTU_SIZE \<longrightarrow> m1 = m"
    by blast
  from Cons.prems(2) d sg have
    r: "tx_segment_all reg cap m1 ds (cnt + length hs) (out @ map (\<lambda>x. (x, t)) hs) = Inr (m', out')"
    by (auto split: if_splits)
  have agree: "\<And>h' t' x. (h', t') \<in> set ds \<Longrightarrow> h' \<le> x \<Longrightarrow> x < h' + int (desc_size m h')
                  \<Longrightarrow> m1 x = m x"
  proof -
    fix h' t' x assume "(h', t') \<in> set ds" and x: "h' \<le> x" "x < h' + int (desc_size m h')"
    from ap [OF this(1)] x have "x < h \<or> h + int (desc_size m h) \<le> x"
      by (auto simp: apart_def)
    then show "m1 x = m x" by (rule fr1)
  qed
  then have bo1: "burst_ok reg m1 ds" by (intro burst_ok_agree [OF bo]) auto
  have eq1: "\<And>h' t'. (h', t') \<in> set ds \<Longrightarrow>
      desc_size m1 h' = desc_size m h' \<and> expected m1 h' = expected m h' \<and> hdr_len m1 h' = hdr_len m h'"
    using agree by (intro conjI desc_agree) auto
  from Cons.IH [OF bo1 r] obtain segs where
    o: "out' = (out @ map (\<lambda>x. (x, t)) hs) @ segs" and
    es: "map (\<lambda>(a, t). seg_desc m' a) segs = concat (map (\<lambda>(h, t). expected m1 h) ds)" and
    fr2: "\<And>x. (\<forall>(h, t) \<in> set ds. x < h \<or> h + int (desc_size m1 h) \<le> x) \<Longrightarrow> m' x = m1 x" and
    sm2: "\<And>h' t' x. (h', t') \<in> set ds \<Longrightarrow> hdr_len m1 h' \<le> MTU_SIZE \<Longrightarrow>
             h' \<le> x \<and> x < h' + int (desc_size m1 h') \<Longrightarrow> m' x = m1 x"
    by (auto simp: split_def)
  have out_h: "\<And>x. h \<le> x \<Longrightarrow> x < h + int (desc_size m h) \<Longrightarrow> m' x = m1 x"
  proof -
    fix x assume x: "h \<le> x" "x < h + int (desc_size m h)"
    have "\<forall>(h', t') \<in> set ds. x < h' \<or> h' + int (desc_size m1 h') \<le> x"
    proof (clarify)
      fix h' t' assume in': "(h', t') \<in> set ds" and "\<not> h' + int (desc_size m1 h') \<le> x"
      with ap [OF in'] eq1 [OF in'] x show "x < h'" by (auto simp: apart_def)
    qed
    then show "m' x = m1 x" by (rule fr2)
  qed
  have a: "out' = out @ (map (\<lambda>x. (x, t)) hs @ segs)" using o by simp
  have "map (seg_desc m') hs = map (seg_desc m1) hs"
  proof (rule map_cong [OF refl])
    fix a assume "a \<in> set hs"
    from ins [OF this] have "\<And>x. a \<le> x \<Longrightarrow> x < a + 16 \<Longrightarrow> m' x = m1 x"
      by (intro out_h) auto
    then show "seg_desc m' a = seg_desc m1 a" by (rule fields_agree)
  qed
  moreover have "concat (map (\<lambda>(h, t). expected m1 h) ds) = concat (map (\<lambda>(h, t). expected m h) ds)"
    using eq1 by (intro arg_cong [where f = concat] map_cong refl) auto
  ultimately have b: "map (\<lambda>(a, t). seg_desc m' a) (map (\<lambda>x. (x, t)) hs @ segs) =
      concat (map (\<lambda>(h, t). expected m h) (d # ds))"
    using e es d by (simp add: comp_def)
  have c: "\<forall>x. (\<forall>(h, t) \<in> set (d # ds). x < h \<or> h + int (desc_size m h) \<le> x) \<longrightarrow> m' x = m x"
  proof (intro allI impI)
    fix x assume x: "\<forall>(h, t) \<in> set (d # ds). x < h \<or> h + int (desc_size m h) \<le> x"
    then have "\<forall>(h', t') \<in> set ds. x < h' \<or> h' + int (desc_size m1 h') \<le> x"
      using eq1 by auto
    then have "m' x = m1 x" by (rule fr2)
    also from x d have "m1 x = m x" by (intro fr1) simp
    finally show "m' x = m x" .
  qed
  have e': "\<forall>(h', t') \<in> set (d # ds). hdr_len m h' \<le> MTU_SIZE \<longrightarrow>
                (\<forall>x. h' \<le> x \<and> x < h' + int (desc_size m h') \<longrightarrow> m' x = m x)"
  proof (clarify)
    fix h' t' x
    assume in': "(h', t') \<in> set (d # ds)" and small: "hdr_len m h' \<le> MTU_SIZE"
      and x: "h' \<le> x" "x < h' + int (desc_size m h')"
    show "m' x = m x"
    proof (cases "(h', t') \<in> set ds")
      case True
      with small eq1 x have "m' x = m1 x" by (intro sm2 [OF True]) simp_all
      with agree [OF True x] show ?thesis by simp
    next
      case False
      with in' d have "h' = h" by simp
      with small sm1 out_h x show ?thesis by simp
    qed
  qed
  from a b c e' show ?case by blast
qed

lemma tx_prepare_tx_mbuf_result:
  "offered_desc (tx_prepare_tx_mbuf b h t s) b = seg_desc (mem s) h"
  "b' \<noteq> b \<Longrightarrow> mbuf_tab (tx_prepare_tx_mbuf b h t s) b' = mbuf_tab s b'"
  "mem (tx_prepare_tx_mbuf b h t s) = mem s"
  by (simp_all add: tx_prepare_tx_mbuf_def Let_def proc_get_def offered_desc_def seg_desc_def)

lemma tx_fill_mem: "mem (tx_fill i segs s) = mem s"
  by (induction i segs s rule: tx_fill.induct) (simp_all add: tx_prepare_tx_mbuf_result)

lemma tx_fill_other:
  "b \<notin> bufs s ` {i..<i + length segs} \<Longrightarrow> mbuf_tab (tx_fill i segs s) b = mbuf_tab s b"
proof (induction i segs s rule: tx_fill.induct)
  case (1 i s)
  show ?case by simp
next
  case (2 i h t segs s)
  let ?s1 = "tx_prepare_tx_mbuf (bufs s i) h t s"
  have b1: "bufs ?s1 = bufs s" by (simp add: tx_prepare_tx_mbuf_frame)
  from "2.prems" have ne: "b \<noteq> bufs s i" and rest: "b \<notin> bufs ?s1 ` {i + 1..<i + 1 + length segs}"
    unfolding b1 by auto
  from "2.IH" [OF rest] ne show ?case by (simp add: tx_prepare_tx_mbuf_result)
qed

lemma tx_fill_result:
  assumes "distinct (map (bufs s) [i..<i + length segs])" and "k < length segs"
  shows "offered_desc (tx_fill i segs s) (bufs s (i + k)) = seg_desc (mem s) (fst (segs ! k))"
  using assms
proof (induction i segs s arbitrary: k rule: tx_fill.induct)
  case (1 i s)
  then show ?case by simp
next
  case (2 i h t segs s)
  let ?s1 = "tx_prepare_tx_mbuf (bufs s i) h t s"
  have b1: "bufs ?s1 = bufs s" by (simp add: tx_prepare_tx_mbuf_frame)
  have up: "[i..<i + length ((h, t) # segs)] = i # [i + 1..<i + 1 + length segs]"
    using upt_conv_Cons [of i "i + 1 + length segs"] by simp
  from "2.prems"(1) have ni: "bufs s i \<notin> bufs s ` {i + 1..<i + 1 + length segs}"
    and di: "distinct (map (bufs ?s1) [i + 1..<i + 1 + length segs])"
    unfolding up b1 by auto
  show ?case
  proof (cases k)
    case 0
    have "mbuf_tab (tx_fill (i + 1) segs ?s1) (bufs s i) = mbuf_tab ?s1 (bufs s i)"
      using ni by (intro tx_fill_other) (simp add: b1)
    then have "offered_desc (tx_fill (i + 1) segs ?s1) (bufs s i) = offered_desc ?s1 (bufs s i)"
      by (simp add: offered_desc_def)
    with 0 show ?thesis by (simp add: tx_prepare_tx_mbuf_result)
  next
    case (Suc k')
    with "2.prems"(2) have k': "k' < length segs" by simp
    from "2.IH" [OF di k'] Suc show ?thesis
      by (simp add: b1 tx_prepare_tx_mbuf_result)
  qed
qed

lemma tx_alloc_fill_result:
  assumes af: "tx_alloc_fill segs s = (None, s')" and nb: "n_bufs s = 0"
    and np: "n_pkts s = of_nat (length segs)" and lt: "length segs < 2 ^ 32"
    and dp: "distinct (tx_mbuf_pool s)"
  shows "map (offered_desc s') (tx_offered s') = map (\<lambda>(a, t). seg_desc (mem s) a) segs"
    "mem s' = mem s" "tx_offered s' = take (length segs) (tx_mbuf_pool s)"
proof -
  let ?n = "length segs"
  have un: "unat (n_pkts s) = ?n" using lt by (simp add: np unat_of_nat)
  have "\<exists>s5. s' = (tx_fill 0 segs s5)\<lparr>n_bufs := n_pkts (tx_fill 0 segs s5)\<rparr> \<and> mem s5 = mem s
          \<and> n_pkts s5 = n_pkts s \<and> map (bufs s5) [0..<?n] = take ?n (tx_mbuf_pool s)
          \<and> ?n \<le> length (tx_mbuf_pool s)"
  proof (cases "?n = 0")
    case True
    then have "n_pkts s - n_bufs s = 0" by (simp add: np nb)
    with af nb True show ?thesis
      by (intro exI [of _ s]) (simp add: tx_alloc_fill_def Let_def)
  next
    case False
    then have "n_pkts s \<noteq> 0" using un by auto
    then have nz: "n_pkts s - n_bufs s \<noteq> 0" by (simp add: nb)
    have un': "unat (n_pkts s - n_bufs s) = ?n" using un nb by simp
    from af nz obtain s5 where
      g: "rte_mempool_get_bulk (unat (n_bufs s)) (unat (n_pkts s - n_bufs s)) s = Some s5" and
      s': "s' = (tx_fill (unat (n_bufs s5)) segs s5)\<lparr>n_bufs := n_pkts (tx_fill (unat (n_bufs s5)) segs s5)\<rparr>"
      by (auto simp: tx_alloc_fill_def Let_def split: option.splits)
    from g have le: "?n \<le> length (tx_mbuf_pool s)"
      and s5: "s5 = s\<lparr>tx_mbuf_pool := drop ?n (tx_mbuf_pool s),
                   bufs := (\<lambda>i. if 0 \<le> i \<and> i < 0 + ?n
                                 then tx_mbuf_pool s ! (i - 0) else bufs s i)\<rparr>"
      unfolding nb by (auto simp: rte_mempool_get_bulk_def un split: if_splits)
    have "map (bufs s5) [0..<?n] = take ?n (tx_mbuf_pool s)"
      using le by (intro nth_equalityI) (simp_all add: s5)
    with s' s5 le nb show ?thesis by (intro exI [of _ s5]) simp
  qed
  then obtain s5 where
    s': "s' = (tx_fill 0 segs s5)\<lparr>n_bufs := n_pkts (tx_fill 0 segs s5)\<rparr>" and m5: "mem s5 = mem s"
    and n5: "n_pkts s5 = n_pkts s" and b5: "map (bufs s5) [0..<?n] = take ?n (tx_mbuf_pool s)"
    by blast
  show "mem s' = mem s" by (simp add: s' tx_fill_mem m5)
  have d5: "distinct (map (bufs s5) [0..<0 + ?n])" using dp by (simp add: b5)
  have off: "tx_offered s' = map (bufs s5) [0..<?n]"
    by (simp add: tx_offered_def s' tx_fill_frame n5 un)
  show "tx_offered s' = take ?n (tx_mbuf_pool s)" unfolding off by (rule b5)
  have "map (offered_desc s') (tx_offered s') = map (\<lambda>k. seg_desc (mem s) (fst (segs ! k))) [0..<?n]"
  proof -
    have "\<And>k. k \<in> set [0..<?n] \<Longrightarrow> offered_desc s' (bufs s5 k) = seg_desc (mem s) (fst (segs ! k))"
    proof -
      fix k assume "k \<in> set [0..<?n]"
      then have k: "k < ?n" by simp
      from tx_fill_result [OF d5 k] show "offered_desc s' (bufs s5 k) = seg_desc (mem s) (fst (segs ! k))"
        by (simp add: s' offered_desc_def m5)
    qed
    then show ?thesis unfolding off by (simp add: comp_def)
  qed
  also have "\<dots> = map (\<lambda>(a, t). seg_desc (mem s) a) segs"
    by (intro nth_equalityI) (simp_all add: split_def)
  finally show "map (offered_desc s') (tx_offered s') = map (\<lambda>(a, t). seg_desc (mem s) a) segs" .
qed

lemma tx_poll_keeps:
  "tx_poll B i pulled pt s = Inr (full, pulled', pt', s') \<Longrightarrow>
     procs s' = procs s \<and> mem s' = mem s \<and> tx_mbuf_pool s' = tx_mbuf_pool s
     \<and> mbuf_tab s' = mbuf_tab s \<and> (\<forall>u. t_p (thread_tab s' u) = t_p (thread_tab s u))"
proof (induction B i pulled pt s rule: tx_poll.induct)
  case (1 B i pulled pt s)
  show ?case
  proof (cases "i < length (ts s)")
    case False
    with "1.prems" show ?thesis by (simp add: tx_poll.simps [of B i pulled pt s])
  next
    case True
    let ?t = "ts s ! (unat (pos s + of_nat i) mod length (ts s))"
    let ?n = "sint (of_nat B - n_pkts s :: 32 word)"
    from True "1.prems" obtain hs s1 where dq: "tx_drain_queue ?t ?n s = Inr (hs, s1)"
      by (auto simp: tx_poll.simps [of B i pulled pt s] Let_def split: sum.splits)
    note fr = tx_drain_queue_frame [OF dq]
    from tx_drain_loop_length [OF dq [unfolded tx_drain_queue_def]]
    have tp: "\<forall>u. t_p (thread_tab s1 u) = t_p (thread_tab s u)" by blast
    let ?ret = "of_nat (length hs) :: 32 word"
    let ?s2 = "s1\<lparr>n_pkts := n_pkts s1 + ?ret\<rparr>"
    let ?p2 = "pulled @ map (\<lambda>h. (h, ?t)) hs"
    show ?thesis
    proof (cases "of_nat B \<le> n_pkts ?s2")
      case full: True
      with True dq "1.prems" have "s' = ?s2"
        by (simp add: tx_poll.simps [of B i pulled pt s] Let_def)
      with fr tp show ?thesis by simp
    next
      case nf: False
      with True dq "1.prems" have r: "tx_poll B (i + 1) ?p2 (pt + ?ret) ?s2 = Inr (full, pulled', pt', s')"
        by (simp add: tx_poll.simps [of B i pulled pt s] Let_def)
      from "1.IH" [OF True refl refl dq refl refl refl nf r] fr tp show ?thesis by simp
    qed
  qed
qed

lemma tx_print_all_cong:
  "region_of s' = region_of s \<Longrightarrow> mem s' = mem s \<Longrightarrow> tx_print_all s' ds = tx_print_all s ds"
  by (induction ds) (auto split: sum.splits)

lemma tx_alloc_fill_enough:
  assumes "tx_alloc_fill segs s = (x, s')"
    and "unat (n_pkts s - n_bufs s) \<le> length (tx_mbuf_pool s)"
  shows "x = None"
  using assms
  by (auto simp: tx_alloc_fill_def rte_mempool_get_bulk_def Let_def split: if_splits option.splits)

text \<open>
  A call entered with nothing carried over, from the polling loop on: the state after
  polling, as the rest of the function sees it.
\<close>
lemma tx_poll_fresh:
  assumes np: "n_pkts s = 0" and nb: "n_bufs s = 0" and B31: "B < 2 ^ 31"
    and p: "tx_poll B 0 [] 0 s = Inr (full, pulled, pt, s1)"
  shows "unat (n_pkts s1) = length pulled" "n_bufs (tx_after_poll full pt s1) = 0"
    "n_pkts (tx_after_poll full pt s1) = n_pkts s1"
    "region_of (tx_after_poll full pt s1) = region_of s"
    "mem (tx_after_poll full pt s1) = mem s"
    "tx_mbuf_pool (tx_after_poll full pt s1) = tx_mbuf_pool s"
proof -
  have n31: "unat (n_pkts s) < 2 ^ 31" by (simp add: np)
  from tx_poll_count [OF p B31 n31] show "unat (n_pkts s1) = length pulled" by (auto simp: np)
  note fr = tx_poll_frame [OF p] and k = tx_poll_keeps [OF p]
  show "n_bufs (tx_after_poll full pt s1) = 0" using fr nb by (simp add: tx_after_poll_frame)
  show "n_pkts (tx_after_poll full pt s1) = n_pkts s1" by (simp add: tx_after_poll_frame)
  show "region_of (tx_after_poll full pt s1) = region_of s"
    using k by (auto simp: region_of_def tx_after_poll_def Let_def fun_eq_iff)
  show "mem (tx_after_poll full pt s1) = mem s" "tx_mbuf_pool (tx_after_poll full pt s1) = tx_mbuf_pool s"
    using k by (simp_all add: tx_after_poll_def Let_def)
qed

lemma tx_gso_all_fresh:
  assumes "n_bufs s2 = 0"
  shows "tx_gso_all B 0 pulled s2 =
     (case tx_segment_all (region_of s2) (TX_MAX_SEGS B) (mem s2) pulled 0 [] of
        Inl e \<Rightarrow> Inl e
      | Inr (m', segs) \<Rightarrow> Inr (segs, s2\<lparr>mem := m', n_pkts := of_nat (length segs)\<rparr>))"
  using assms by (auto simp: tx_gso_all_def split: sum.splits)

lemma tx_burst_fill_fresh_offer:
  assumes np: "n_pkts s = 0" and nb: "n_bufs s = 0" and B31: "B < 2 ^ 31"
    and cap: "TX_MAX_SEGS B < 2 ^ 32" and dp: "distinct (tx_mbuf_pool s)"
    and p: "tx_poll B 0 [] 0 s = Inr (full, pulled, pt, s1)"
    and f: "tx_burst_fill B s = Inr (None, s')"
  shows "\<exists>m' segs. tx_segment_all (region_of s) (TX_MAX_SEGS B) (mem s) pulled 0 [] = Inr (m', segs)
           \<and> mem s' = m'
           \<and> map (offered_desc s') (tx_offered s') = map (\<lambda>(a, t). seg_desc m' a) segs
           \<and> tx_offered s' = take (length segs) (tx_mbuf_pool s)"
  using f
proof (cases rule: tx_burst_fill_cases)
  case (idle pulled pt s1)
  then show ?thesis by simp
next
  case (work full' pulled' pt' s1' segs s4)
  with p have same: "full' = full" "pulled' = pulled" "pt' = pt" "s1' = s1" by simp_all
  note fr = tx_poll_fresh [OF np nb B31 p]
  let ?s2 = "tx_after_poll full pt s1"
  from work(4) obtain m' where
    sg: "tx_segment_all (region_of s) (TX_MAX_SEGS B) (mem s) pulled 0 [] = Inr (m', segs)" and
    s4: "s4 = ?s2\<lparr>mem := m', n_pkts := of_nat (length segs)\<rparr>"
    unfolding same np tx_gso_all_fresh [OF fr(2)] fr(4,5) by (auto split: sum.splits)
  from tx_segment_all_bound [OF sg] cap have lt: "length segs < 2 ^ 32" by auto
  have a: "n_bufs s4 = 0" "n_pkts s4 = of_nat (length segs)" "distinct (tx_mbuf_pool s4)" "mem s4 = m'"
    "tx_mbuf_pool s4 = tx_mbuf_pool s"
    using fr dp by (simp_all add: s4)
  from tx_alloc_fill_result [OF work(5) a(1,2) lt a(3)] a(4,5) sg show ?thesis by simp
qed

text \<open>When such a call reaches the driver.\<close>
lemma tx_burst_fill_reaches_driver:
  assumes np: "n_pkts s = 0" and nb: "n_bufs s = 0" and B31: "B < 2 ^ 31"
    and p: "tx_poll B 0 [] 0 s = Inr (full, pulled, pt, s1)" and ne: "pulled \<noteq> []"
    and pr: "tx_print_all s pulled = Inr ()"
    and sg: "tx_segment_all (region_of s) (TX_MAX_SEGS B) (mem s) pulled 0 [] = Inr (m', segs)"
    and pool: "length segs \<le> length (tx_mbuf_pool s)"
  shows "\<exists>s'. tx_burst_fill B s = Inr (None, s')"
proof -
  note fr = tx_poll_fresh [OF np nb B31 p]
  let ?s2 = "tx_after_poll full pt s1"
  let ?s4 = "?s2\<lparr>mem := m', n_pkts := of_nat (length segs)\<rparr>"
  from fr(1) ne have nz: "n_pkts s1 \<noteq> 0" by auto
  have "tx_print_all ?s2 pulled = Inr ()" using pr by (simp only: tx_print_all_cong [OF fr(4,5)])
  then have pr2: "tx_print (n_pkts s) pulled ?s2 = Inr ()"
    using nz by (simp add: tx_print_def fr np)
  have g: "tx_gso_all B (n_pkts s) pulled ?s2 = Inr (segs, ?s4)"
    unfolding np tx_gso_all_fresh [OF fr(2)] fr(4,5) sg by simp
  obtain x s' where af: "tx_alloc_fill segs ?s4 = (x, s')" by (cases "tx_alloc_fill segs ?s4")
  have "unat (of_nat (length segs) :: 32 word) \<le> length segs" by (simp add: unat_of_nat)
  with pool have "unat (n_pkts ?s4 - n_bufs ?s4) \<le> length (tx_mbuf_pool ?s4)"
    using fr by simp
  from tx_alloc_fill_enough [OF af this] have "x = None" .
  with af p nz pr2 g have "tx_burst_fill B s = Inr (None, s')"
    by (simp add: tx_burst_fill_def Let_def)
  then show ?thesis by blast
qed

lemma expected_nonzero:
  "length (filter (\<lambda>(a, l, c). c \<noteq> 0) (expected m h)) = (if hdr_completion_data m h = 0 then 0 else 1)"
  by (simp add: expected_def filter_map comp_def)

lemma concat_expected_nonzero:
  "length (filter (\<lambda>(a, l, c). c \<noteq> 0) (concat (map (\<lambda>(h, t). expected m h) ds))) =
   length (filter (\<lambda>(h, t). hdr_completion_data m h \<noteq> 0) ds)"
proof (induction ds)
  case Nil
  show ?case by simp
next
  case (Cons d ds)
  obtain h t where "d = (h, t)" by (cases d)
  with Cons show ?case by (simp add: expected_nonzero)
qed

subsection \<open>Example bursts with an oversized descriptor\<close>

lemma packet_mem_udp: "udp_len (packet_mem tok len ulen) 0 = ulen"
  "60 \<le> h \<Longrightarrow> udp_len (packet_mem tok len ulen) h = 0"
  by (simp_all add: packet_mem_def udp_len_def hdr_payload_def load_store_other)
    (simp add: load_be16_def load_bytes_def upt_conv_Cons)

lemma put_desc_gso:
  "h' + 60 \<le> h \<or> h + 60 \<le> h' \<Longrightarrow> gso_len (put_desc m h tok len) h' = gso_len m h'"
  "h' + 60 \<le> h \<or> h + 60 \<le> h' \<Longrightarrow> gso_segs (put_desc m h tok len) h' = gso_segs m h'"
  by (simp_all add: gso_len_udp gso_segs_def put_desc_fields)

text \<open>
  A small descriptor at 0x2000 (100 bytes, token 0xA1) and an oversized one at 0 (4162
  bytes with a payload of 4000, token 0xAA), which do not overlap.
\<close>
definition mixed_pkts :: shm where
  "mixed_pkts = put_desc (packet_mem 0xAA 4162 4008) 0x2000 0xA1 100"

definition mixed_state :: iokernel where
  "mixed_state = runtime_state [(0, 0x2000), (0, 0)] mixed_pkts"

lemma mixed_fields:
  "hdr_len mixed_pkts 0x2000 = 100" "hdr_completion_data mixed_pkts 0x2000 = 0xA1"
  "udp_len mixed_pkts 0x2000 = 0" "hdr_len mixed_pkts 0 = 4162"
  "hdr_completion_data mixed_pkts 0 = 0xAA" "udp_len mixed_pkts 0 = 4008"
  "gso_len mixed_pkts 0 = 4000" "gso_segs mixed_pkts 0 = 3"
  by (simp_all add: mixed_pkts_def put_desc_fields put_desc_gso packet_mem_fields packet_mem_udp
      segs_4162)

text \<open>
  A small descriptor at 0x5EE (100 bytes, token 0xA1) inside the frame of an oversized
  one at 0 (1561 bytes with a payload of 1459, token 0xAA): the second segment of the
  oversized descriptor starts at 1518, which is 0x5EE.
\<close>
definition overlap_pkts :: shm where
  "overlap_pkts = put_desc (packet_mem 0xAA 1561 1467) 0x5EE 0xA1 100"

definition overlap_state :: iokernel where
  "overlap_state = runtime_state [(0, 0x5EE), (0, 0)] overlap_pkts"

lemma segs_1561: "gso_segs (packet_mem 0xAA 1561 1467) 0 = 2"
  by (simp add: packet_mem_segs)

lemma overlap_fields:
  "hdr_len overlap_pkts 0x5EE = 100" "hdr_completion_data overlap_pkts 0x5EE = 0xA1"
  "udp_len overlap_pkts 0x5EE = 0" "hdr_len overlap_pkts 0 = 1561"
  "hdr_completion_data overlap_pkts 0 = 0xAA" "udp_len overlap_pkts 0 = 1467"
  "gso_len overlap_pkts 0 = 1459" "gso_segs overlap_pkts 0 = 2"
  by (simp_all add: overlap_pkts_def put_desc_fields put_desc_gso packet_mem_fields packet_mem_udp
      segs_1561)

lemma runtime_region:
  "in_region (region_of (runtime_state slots m) t) a n \<longleftrightarrow> 0 \<le> a \<and> a + int n \<le> 65536"
  by (simp add: region_of_def runtime_defs in_region_def)

lemma runtime_fresh:
  "n_pkts (runtime_state slots m) = 0" "n_bufs (runtime_state slots m) = 0"
  "mem (runtime_state slots m) = m" "tx_mbuf_pool (runtime_state slots m) = [10, 11, 12, 13]"
  by (simp_all add: runtime_defs)

lemmas poll_defs = runtime_defs tx_polled_def tx_poll.simps tx_drain_queue_def tx_drain_loop.simps
  lrpc_recv_def BUG_ON_def TXPKT_NET_XMIT_def Let_def shmptr_to_ptr_def sizeof_tx_net_hdr_def
  word_le_nat_alt word_less_nat_alt

subsection \<open>Claims on the tokens of a burst\<close>

text \<open>
  C4, as stated, fails when descriptors overlap. The burst holds a small descriptor at
  0x5EE with token 0xA1 and an oversized one at 0 with token 0xAA, which the
  segmenter cuts in two: its second segment starts at 1518, where the small
  descriptor lies. The segmenter runs over the whole burst before any buffer is filled
  in, so the small descriptor is emitted with what the segmenter wrote there: length 43
  and token 0xAA. The token 0xA1 is on no buffer, and 0xAA is on two.
\<close>
theorem tx_burst_overlap_loses_token:
  "hdr_len overlap_pkts 0x5EE = 100 \<and> hdr_completion_data overlap_pkts 0x5EE = 0xA1 \<and>
   hdr_len overlap_pkts 0 = 1561 \<and> hdr_completion_data overlap_pkts 0 = 0xAA \<and>
   tx_polled 32 overlap_state = Inr (False, [(0x5EE, 0), (0, 0)]) \<and>
   tx_offered (state_after (tx_burst_fill 32 overlap_state)) = [10, 11, 12] \<and>
   map (offered_desc (state_after (tx_burst_fill 32 overlap_state))) [10, 11, 12] =
     [(0x600, 43, 0xAA), (18, 1500, 0), (0x600, 43, 0xAA)]"
proof -
  let ?s = "overlap_state" and ?m = "overlap_pkts"
  let ?r = "region_of overlap_state 0"
  have st: "n_pkts ?s = 0" "n_bufs ?s = 0" "mem ?s = ?m" "tx_mbuf_pool ?s = [10, 11, 12, 13]"
    by (simp_all add: overlap_state_def runtime_fresh)
  have pl: "tx_polled 32 ?s = Inr (False, [(0x5EE, 0), (0, 0)])"
    by (simp add: overlap_state_def poll_defs)
  then obtain pt s1 where p: "tx_poll 32 0 [] 0 ?s = Inr (False, [(0x5EE, 0), (0, 0)], pt, s1)"
    by (auto simp: tx_polled_def split: sum.splits)
  have reg: "\<And>a n. in_region ?r a n \<longleftrightarrow> 0 \<le> a \<and> a + int n \<le> 65536"
    unfolding overlap_state_def by (rule runtime_region)
  have pr: "tx_print_all ?s [(0x5EE, 0), (0, 0)] = Inr ()"
    by (simp add: print_pkt_contents_eq reg st overlap_fields)
  have A: "tx_segment ?r ?m 0x5EE = Inr (?m, [0x5EE])"
    by (simp add: tx_segment_def overlap_fields MTU_SIZE_def)
  have g: "MTU_SIZE < hdr_len ?m 0" by (simp add: overlap_fields MTU_SIZE_def)
  have nz: "gso_segs ?m 0 \<noteq> 0" by (simp add: overlap_fields)
  have fit: "1458 * (unat (gso_segs ?m 0) - 1) \<le> unat (gso_len ?m 0)"
    by (simp add: overlap_fields)
  have ar: "in_region ?r 0 (gso_area ?m 0)"
    by (simp add: reg gso_area_def overlap_fields)
  from tx_segment_shape [OF g nz fit ar] obtain m1 where
    r: "tx_segment ?r ?m 0 = Inr (m1, [0, 1518])" and
    f1: "seg_fields m1 0 = (1500, 0, 1466, 1486)" and
    f2: "seg_fields m1 1518 = (gso_last_len ?m 0, hdr_completion_data ?m 0,
                ucast (gso_last_len ?m 0 - 34), ucast (gso_last_len ?m 0 - 14))"
    by (auto simp: overlap_fields upt_conv_Cons)
  have ll: "gso_last_len ?m 0 = 43" by (simp add: gso_last_len_def overlap_fields)
  have sd: "seg_desc m1 0 = (18, 1500, 0)" "seg_desc m1 1518 = (1536, 43, 0xAA)"
    using f1 f2 by (simp_all add: seg_desc_def seg_fields_def ll overlap_fields hdr_payload_def)
  have sg: "tx_segment_all (region_of ?s) (TX_MAX_SEGS 32) (mem ?s) [(0x5EE, 0), (0, 0)] 0 [] =
      Inr (m1, [(0x5EE, 0), (0, 0), (1518, 0)])"
    by (simp add: st A r TX_MAX_SEGS_def)
  have B31: "(32 :: nat) < 2 ^ 31" and cap: "TX_MAX_SEGS 32 < 2 ^ 32" by (simp_all add: TX_MAX_SEGS_def)
  have dp: "distinct (tx_mbuf_pool ?s)" by (simp add: st)
  from tx_burst_fill_reaches_driver [OF st(1,2) B31 p _ pr sg] obtain s' where
    f: "tx_burst_fill 32 ?s = Inr (None, s')" by (auto simp: st)
  from tx_burst_fill_fresh_offer [OF st(1,2) B31 cap dp p f] sg
  have off: "map (offered_desc s') (tx_offered s') = [seg_desc m1 0x5EE, seg_desc m1 0, seg_desc m1 1518]"
    and o: "tx_offered s' = [10, 11, 12]"
    by (auto simp: st)
  from off have "map (offered_desc s') [10, 11, 12] = [(0x600, 43, 0xAA), (18, 1500, 0), (0x600, 43, 0xAA)]"
    unfolding o by (simp add: sd)
  with f o pl show ?thesis
    by (simp add: overlap_fields state_after_def)
qed

text \<open>
  C4, amended. Take a call of \<open>tx_burst\<close> that reaches the driver, in a state in
  which the static counters are as the function leaves them (\<open>n_bufs \<le> n_pkts\<close>, within
  the arrays) and the buffers of the pool are distinct, and let the burst it pulls be
  well formed: every descriptor lies inside the region of its process, the descriptors
  do not overlap each other, and for every oversized descriptor \<open>payload_len + 42\<close> is
  at most the total length and \<open>1458 * (segs - 1)\<close> is at most \<open>payload_len\<close>. Then
  the buffers handed to the driver are, descriptor after descriptor in the order in
  which they were pulled: for a descriptor of total length at most MTU, one buffer
  with the frame, the length and the token of the descriptor, whose bytes are
  unchanged; for an oversized descriptor, \<open>segs - 1\<close> buffers of length 1500 with token
  zero followed by one buffer with the token of the descriptor. So the buffers with a
  token other than zero are as many as the descriptors with a token other than zero.
\<close>
theorem tx_burst_tokens:
  assumes f: "tx_burst_fill B s = Inr (None, s')"
    and p: "tx_poll B 0 [] 0 s = Inr (full, pulled, pt, s1)"
    and B: "0 < B" "TX_MAX_SEGS B < 2 ^ 31"
    and inv: "n_bufs s \<le> n_pkts s" "unat (n_pkts s) \<le> TX_MAX_SEGS B"
    and dp: "distinct (tx_mbuf_pool s)"
    and ok: "burst_ok (region_of s) (mem s) pulled"
  shows "map (offered_desc s') (tx_offered s') = concat (map (\<lambda>(h, t). expected (mem s) h) pulled)
       \<and> length (filter (\<lambda>b. completion_data (priv (mbuf_tab s' b)) \<noteq> 0) (tx_offered s')) =
           length (filter (\<lambda>(h, t). hdr_completion_data (mem s) h \<noteq> 0) pulled)
       \<and> (\<forall>(h, t) \<in> set pulled. hdr_len (mem s) h \<le> MTU_SIZE \<longrightarrow>
            (\<forall>x. h \<le> x \<and> x < h + int (desc_size (mem s) h) \<longrightarrow> mem s' x = mem s x))"
proof -
  from B(2) have B31: "B < 2 ^ 31" and cap: "TX_MAX_SEGS B < 2 ^ 32" by (simp_all add: TX_MAX_SEGS_def)
  from B(2) inv(2) have n31: "unat (n_pkts s) < 2 ^ 31" by linarith
  have np: "n_pkts s = 0" by (rule tx_burst_fill_fresh [OF f B(1) B31 n31])
  with inv(1) have nb: "n_bufs s = 0" by simp
  from tx_burst_fill_fresh_offer [OF np nb B31 cap dp p f] obtain m' segs where
    sg: "tx_segment_all (region_of s) (TX_MAX_SEGS B) (mem s) pulled 0 [] = Inr (m', segs)" and
    ms: "mem s' = m'" and
    off: "map (offered_desc s') (tx_offered s') = map (\<lambda>(a, t). seg_desc m' a) segs"
    by blast
  from tx_segment_all_result [OF ok sg] have
    e: "map (\<lambda>(a, t). seg_desc m' a) segs = concat (map (\<lambda>(h, t). expected (mem s) h) pulled)" and
    sm: "\<forall>(h, t) \<in> set pulled. hdr_len (mem s) h \<le> MTU_SIZE \<longrightarrow>
            (\<forall>x. h \<le> x \<and> x < h + int (desc_size (mem s) h) \<longrightarrow> m' x = mem s x)"
    by auto
  have a: "map (offered_desc s') (tx_offered s') = concat (map (\<lambda>(h, t). expected (mem s) h) pulled)"
    using off e by simp
  have "filter (\<lambda>(a, l, c). c \<noteq> 0) (map (offered_desc s') (tx_offered s')) =
        map (offered_desc s')
          (filter (\<lambda>b. completion_data (priv (mbuf_tab s' b)) \<noteq> 0) (tx_offered s'))"
    by (simp add: filter_map comp_def offered_desc_def)
  then have "length (filter (\<lambda>b. completion_data (priv (mbuf_tab s' b)) \<noteq> 0) (tx_offered s')) =
        length (filter (\<lambda>(a, l, c). c \<noteq> 0) (map (offered_desc s') (tx_offered s')))"
    by simp
  also have "\<dots> = length (filter (\<lambda>(h, t). hdr_completion_data (mem s) h \<noteq> 0) pulled)"
    unfolding a by (rule concat_expected_nonzero)
  finally have b: "length (filter (\<lambda>b. completion_data (priv (mbuf_tab s' b)) \<noteq> 0) (tx_offered s')) =
           length (filter (\<lambda>(h, t). hdr_completion_data (mem s) h \<noteq> 0) pulled)" .
  from a b sm ms show ?thesis by simp
qed

theorem tx_burst_tokens_witness:
  "0 < (32 :: nat) \<and> TX_MAX_SEGS 32 < 2 ^ 31 \<and> n_bufs mixed_state \<le> n_pkts mixed_state \<and>
   unat (n_pkts mixed_state) \<le> TX_MAX_SEGS 32 \<and> distinct (tx_mbuf_pool mixed_state) \<and>
   tx_polled 32 mixed_state = Inr (False, [(0x2000, 0), (0, 0)]) \<and>
   burst_ok (region_of mixed_state) (mem mixed_state) [(0x2000, 0), (0, 0)] \<and>
   (\<exists>s'. tx_burst_fill 32 mixed_state = Inr (None, s') \<and>
      tx_offered s' = [10, 11, 12, 13] \<and>
      map (offered_desc s') (tx_offered s') =
        [(0x2012, 100, 0xA1), (18, 1500, 0), (1536, 1500, 0), (3054, 1126, 0xAA)] \<and>
      length (filter (\<lambda>b. completion_data (priv (mbuf_tab s' b)) \<noteq> 0) (tx_offered s')) = 2)"
proof -
  let ?s = "mixed_state" and ?m = "mixed_pkts"
  let ?r = "region_of mixed_state 0"
  have st: "n_pkts ?s = 0" "n_bufs ?s = 0" "mem ?s = ?m" "tx_mbuf_pool ?s = [10, 11, 12, 13]"
    by (simp_all add: mixed_state_def runtime_fresh)
  have pl: "tx_polled 32 ?s = Inr (False, [(0x2000, 0), (0, 0)])"
    by (simp add: mixed_state_def poll_defs)
  then obtain pt s1 where p: "tx_poll 32 0 [] 0 ?s = Inr (False, [(0x2000, 0), (0, 0)], pt, s1)"
    by (auto simp: tx_polled_def split: sum.splits)
  have reg: "\<And>t a n. in_region (region_of ?s t) a n \<longleftrightarrow> 0 \<le> a \<and> a + int n \<le> 65536"
    unfolding mixed_state_def by (rule runtime_region)
  have pr: "tx_print_all ?s [(0x2000, 0), (0, 0)] = Inr ()"
    by (simp add: print_pkt_contents_eq reg st mixed_fields)
  have ok: "burst_ok (region_of ?s) (mem ?s) [(0x2000, 0), (0, 0)]"
    by (simp add: st reg desc_size_def gso_ok_def apart_def mixed_fields MTU_SIZE_def)
  have A: "tx_segment ?r ?m 0x2000 = Inr (?m, [0x2000])"
    by (simp add: tx_segment_def mixed_fields MTU_SIZE_def)
  have g: "MTU_SIZE < hdr_len ?m 0" by (simp add: mixed_fields MTU_SIZE_def)
  have nz: "gso_segs ?m 0 \<noteq> 0" by (simp add: mixed_fields)
  have fit: "1458 * (unat (gso_segs ?m 0) - 1) \<le> unat (gso_len ?m 0)"
    by (simp add: mixed_fields)
  have ar: "in_region ?r 0 (gso_area ?m 0)"
    by (simp add: reg gso_area_def mixed_fields)
  from tx_segment_shape [OF g nz fit ar] obtain m1 where
    r: "tx_segment ?r ?m 0 = Inr (m1, [0, 1518, 3036])"
    by (auto simp: mixed_fields upt_conv_Cons)
  have sg: "tx_segment_all (region_of ?s) (TX_MAX_SEGS 32) (mem ?s) [(0x2000, 0), (0, 0)] 0 [] =
      Inr (m1, [(0x2000, 0), (0, 0), (1518, 0), (3036, 0)])"
    by (simp add: st A r TX_MAX_SEGS_def)
  have h: "0 < (32 :: nat)" "TX_MAX_SEGS 32 < 2 ^ 31" "n_bufs ?s \<le> n_pkts ?s"
    "unat (n_pkts ?s) \<le> TX_MAX_SEGS 32" "distinct (tx_mbuf_pool ?s)"
    by (simp_all add: TX_MAX_SEGS_def st)
  have B31: "(32 :: nat) < 2 ^ 31" and cap: "TX_MAX_SEGS 32 < 2 ^ 32" by (simp_all add: TX_MAX_SEGS_def)
  from tx_burst_fill_reaches_driver [OF st(1,2) B31 p _ pr sg] obtain s' where
    f: "tx_burst_fill 32 ?s = Inr (None, s')" by (auto simp: st)
  from tx_burst_fill_fresh_offer [OF st(1,2) B31 cap h(5) p f] sg
  have o: "tx_offered s' = [10, 11, 12, 13]" by (auto simp: st)
  have ll: "gso_last_len ?m 0 = 1126" by (simp add: gso_last_len_def mixed_fields)
  have ex: "concat (map (\<lambda>(h, t). expected (mem ?s) h) [(0x2000, 0 :: nat), (0, 0)]) =
      [(0x2012, 100, 0xA1), (18, 1500, 0), (1536, 1500, 0), (3054, 1126, 0xAA)]"
    by (simp add: st expected_def mixed_fields MTU_SIZE_def hdr_payload_def ll upt_conv_Cons)
  have cnt: "length (filter (\<lambda>(h, t). hdr_completion_data (mem ?s) h \<noteq> 0) [(0x2000, 0 :: nat), (0, 0)]) = 2"
    by (simp add: st mixed_fields)
  from tx_burst_tokens [OF f p h ok] have res:
    "map (offered_desc s') (tx_offered s') =
        [(0x2012, 100, 0xA1), (18, 1500, 0), (1536, 1500, 0), (3054, 1126, 0xAA)]"
    "length (filter (\<lambda>b. completion_data (priv (mbuf_tab s' b)) \<noteq> 0) (tx_offered s')) = 2"
    unfolding ex cnt by simp_all
  have "\<exists>s'. tx_burst_fill 32 ?s = Inr (None, s') \<and>
      tx_offered s' = [10, 11, 12, 13] \<and>
      map (offered_desc s') (tx_offered s') =
        [(0x2012, 100, 0xA1), (18, 1500, 0), (1536, 1500, 0), (3054, 1126, 0xAA)] \<and>
      length (filter (\<lambda>b. completion_data (priv (mbuf_tab s' b)) \<noteq> 0) (tx_offered s')) = 2"
    using f o res by (intro exI [of _ s']) (simp only: simp_thms)
  with h pl ok show ?thesis by (simp only: simp_thms)
qed

end
